theory Spec2Isabelle
  imports Complex_Main
begin

section \<open>Board (src/src/Board.js)\<close>

text \<open>
  Cells of the grid hold JavaScript strings: the blank string \<open>' '\<close> marks an empty
  cell, \<open>'O'\<close> and \<open>'X'\<close> are the two players. Coordinates stored in cells and moves
  are array indices (natural numbers); \<open>placeMarker\<close> receives arbitrary integers and
  checks them itself.
\<close>

definition EMPTY :: string where
  "EMPTY = '' ''"

record Cell =
  row :: nat
  col :: nat

record Move = Cell +
  player :: string

record Board =
  sizeB :: nat
  winLength :: nat
  board :: "string list list"
  moveHistory :: "Move list"
  currentPlayer :: string

text \<open>The record returned by \<open>serialize\<close> and consumed by \<open>deserialize\<close>.\<close>

record BoardData =
  d_size :: nat
  d_winLength :: nat
  d_board :: "string list list"
  d_moveHistory :: "Move list"
  d_currentPlayer :: string

text \<open>\<open>resetBoard\<close>: a fresh size-by-size grid of blanks, no history, \<open>'O'\<close> to move.\<close>

definition resetBoard :: "Board \<Rightarrow> Board" where
  "resetBoard b =
     b\<lparr>board := replicate (sizeB b) (replicate (sizeB b) EMPTY),
       moveHistory := [],
       currentPlayer := ''O''\<rparr>"

text \<open>The constructor stores the two parameters and resets.\<close>

definition newBoard :: "nat \<Rightarrow> nat \<Rightarrow> Board" where
  "newBoard n w =
     resetBoard \<lparr>sizeB = n, winLength = w, board = [], moveHistory = [], currentPlayer = []\<rparr>"

text \<open>
  The representation invariant of the class: the grid is an array of \<open>size\<close> rows of
  \<open>size\<close> cells each. The constructor establishes it and no method changes the shape.
  Under it every array access of the methods below is inside the arrays.
\<close>

definition wf :: "Board \<Rightarrow> bool" where
  "wf b = (length (board b) = sizeB b \<and> list_all (\<lambda>r. length r = sizeB b) (board b))"

text \<open>\<open>this.board[r][c] = v\<close>\<close>

definition setCell :: "string list list \<Rightarrow> nat \<Rightarrow> nat \<Rightarrow> string \<Rightarrow> string list list" where
  "setCell g r c v = g[r := (g ! r)[c := v]]"

text \<open>
  \<open>placeMarker(row, col, player)\<close>: the result pairs the returned boolean with the
  state after the call.
\<close>

definition placeMarker :: "Board \<Rightarrow> int \<Rightarrow> int \<Rightarrow> string \<Rightarrow> bool \<times> Board" where
  "placeMarker b r c p =
     (if r < 0 \<or> r \<ge> int (sizeB b) \<or> c < 0 \<or> c \<ge> int (sizeB b) then (False, b)
      else if board b ! nat r ! nat c \<noteq> EMPTY then (False, b)
      else (True,
            b\<lparr>board := setCell (board b) (nat r) (nat c) p,
              moveHistory := moveHistory b @ [\<lparr>row = nat r, col = nat c, player = p\<rparr>]\<rparr>))"

text \<open>\<open>undoMove()\<close>: \<open>None\<close> is the \<open>null\<close> result.\<close>

definition undoMove :: "Board \<Rightarrow> Move option \<times> Board" where
  "undoMove b =
     (if length (moveHistory b) = 0 then (None, b)
      else (let lastMove = last (moveHistory b) in
            (Some lastMove,
             b\<lparr>moveHistory := butlast (moveHistory b),
               board := setCell (board b) (row lastMove) (col lastMove) EMPTY\<rparr>)))"

definition switchPlayer :: "Board \<Rightarrow> Board" where
  "switchPlayer b = b\<lparr>currentPlayer := (if currentPlayer b = ''O'' then ''X'' else ''O'')\<rparr>"

text \<open>
  \<open>checkWin(player)\<close>: four nested scans, each returning at its first full window.
  The bound \<open>col <= size - winLength\<close> is over JavaScript numbers, so the scan is
  empty when \<open>winLength > size\<close>; on naturals that is \<open>col < Suc size - winLength\<close>.
  The anti-diagonal scan counts its column down from \<open>size - 1\<close> to \<open>winLength - 1\<close>.
\<close>

definition checkWin :: "Board \<Rightarrow> string \<Rightarrow> bool" where
  "checkWin b p =
     (if list_ex (\<lambda>r. list_ex (\<lambda>c.
            list_all (\<lambda>k. board b ! r ! (c + k) = p) [0..<winLength b])
          [0..<Suc (sizeB b) - winLength b]) [0..<sizeB b] then True
      else if list_ex (\<lambda>c. list_ex (\<lambda>r.
            list_all (\<lambda>k. board b ! (r + k) ! c = p) [0..<winLength b])
          [0..<Suc (sizeB b) - winLength b]) [0..<sizeB b] then True
      else if list_ex (\<lambda>r. list_ex (\<lambda>c.
            list_all (\<lambda>k. board b ! (r + k) ! (c + k) = p) [0..<winLength b])
          [0..<Suc (sizeB b) - winLength b]) [0..<Suc (sizeB b) - winLength b] then True
      else if list_ex (\<lambda>r. list_ex (\<lambda>c.
            list_all (\<lambda>k. board b ! (r + k) ! nat (c - int k) = p) [0..<winLength b])
          (rev [int (winLength b) - 1 .. int (sizeB b) - 1])) [0..<Suc (sizeB b) - winLength b]
        then True
      else False)"

definition checkDraw :: "Board \<Rightarrow> bool" where
  "checkDraw b =
     (if list_ex (\<lambda>r. list_ex (\<lambda>c. board b ! r ! c = EMPTY) [0..<sizeB b]) [0..<sizeB b]
      then False else True)"

definition serialize :: "Board \<Rightarrow> BoardData" where
  "serialize b =
     \<lparr>d_size = sizeB b, d_winLength = winLength b, d_board = board b,
      d_moveHistory = moveHistory b, d_currentPlayer = currentPlayer b\<rparr>"

definition deserialize :: "Board \<Rightarrow> BoardData \<Rightarrow> Board" where
  "deserialize b d =
     b\<lparr>sizeB := d_size d, winLength := d_winLength d, board := d_board d,
       moveHistory := d_moveHistory d, currentPlayer := d_currentPlayer d\<rparr>"

text \<open>\<open>getEmptyCells()\<close>: the blank cells in row-major order.\<close>

definition getEmptyCells :: "Board \<Rightarrow> Cell list" where
  "getEmptyCells b =
     concat (map (\<lambda>r. map (\<lambda>c. \<lparr>row = r, col = c\<rparr>)
                          (filter (\<lambda>c. board b ! r ! c = EMPTY) [0..<sizeB b]))
                 [0..<sizeB b])"

definition clone :: "Board \<Rightarrow> Board" where
  "clone b =
     (newBoard (sizeB b) (winLength b))
       \<lparr>board := map (\<lambda>r. r) (board b),
        moveHistory := moveHistory b,
        currentPlayer := currentPlayer b\<rparr>"

subsection \<open>Statements of the specification about the board\<close>

text \<open>
  A run in the words of the specification: \<open>winLength\<close> cells starting at \<open>(r, c)\<close>
  and stepping by \<open>(dr, dc)\<close>, all inside the grid and all holding the marker.
\<close>

definition runFrom :: "Board \<Rightarrow> string \<Rightarrow> int \<Rightarrow> int \<Rightarrow> int \<Rightarrow> int \<Rightarrow> bool" where
  "runFrom b p r c dr dc =
     (\<forall>k < winLength b.
        0 \<le> r + int k * dr \<and> r + int k * dr < int (sizeB b) \<and>
        0 \<le> c + int k * dc \<and> c + int k * dc < int (sizeB b) \<and>
        board b ! nat (r + int k * dr) ! nat (c + int k * dc) = p)"

definition hasRun :: "Board \<Rightarrow> string \<Rightarrow> bool" where
  "hasRun b p =
     (\<exists>r c. runFrom b p r c 0 1 \<or> runFrom b p r c 1 0 \<or>
            runFrom b p r c 1 1 \<or> runFrom b p r c 1 (- 1))"

text \<open>A sequence of calls on one board, for statements about histories of calls.\<close>

datatype Op = Place int int string | Undo | Switch

fun applyOp :: "Board \<Rightarrow> Op \<Rightarrow> Board" where
  "applyOp b (Place r c p) = snd (placeMarker b r c p)"
| "applyOp b Undo = snd (undoMove b)"
| "applyOp b Switch = switchPlayer b"

definition validMarker :: "string \<Rightarrow> bool" where
  "validMarker p = (p = ''O'' \<or> p = ''X'')"

fun validOp :: "Op \<Rightarrow> bool" where
  "validOp (Place r c p) = validMarker p"
| "validOp Undo = True"
| "validOp Switch = True"

text \<open>Replaying a history on an all-blank grid of the given size.\<close>

definition replay :: "nat \<Rightarrow> Move list \<Rightarrow> string list list" where
  "replay n ms =
     foldl (\<lambda>g m. setCell g (row m) (col m) (player m)) (replicate n (replicate n EMPTY)) ms"

definition nonEmptyCount :: "string list list \<Rightarrow> nat" where
  "nonEmptyCount g = length (filter (\<lambda>v. v \<noteq> EMPTY) (concat g))"

text \<open>
  \<open>placeAll\<close> places a list of moves in order and fails when one placement is refused;
  \<open>undoTimes k\<close> calls \<open>undoMove\<close> \<open>k\<close> times and collects what the calls return.
\<close>

fun placeAll :: "Board \<Rightarrow> (int \<times> int \<times> string) list \<Rightarrow> Board option" where
  "placeAll b [] = Some b"
| "placeAll b ((r, c, p) # ms) =
     (case placeMarker b r c p of
        (True, b') \<Rightarrow> placeAll b' ms
      | (False, _) \<Rightarrow> None)"

fun undoTimes :: "nat \<Rightarrow> Board \<Rightarrow> Move option list \<times> Board" where
  "undoTimes 0 b = ([], b)"
| "undoTimes (Suc k) b =
     (case undoMove b of (m, b') \<Rightarrow> (case undoTimes k b' of (ms, b'') \<Rightarrow> (m # ms, b'')))"

definition asMove :: "int \<times> int \<times> string \<Rightarrow> Move" where
  "asMove t = (case t of (r, c, p) \<Rightarrow> \<lparr>row = nat r, col = nat c, player = p\<rparr>)"

text \<open>
  The history invariant: the grid is the replay of the history, no cell occurs twice in
  the history, and every recorded move lies inside the grid with a non-blank marker.
\<close>

definition histInv :: "Board \<Rightarrow> bool" where
  "histInv b =
     (board b = replay (sizeB b) (moveHistory b) \<and>
      distinct (map (\<lambda>m. (row m, col m)) (moveHistory b)) \<and>
      (\<forall>m \<in> set (moveHistory b). row m < sizeB b \<and> col m < sizeB b \<and> player m \<noteq> EMPTY))"

section \<open>AI (src/src/AI.js)\<close>

text \<open>
  Scores are JavaScript numbers, that is IEEE 754 doubles. Every number this program
  computes is an integer, one of the two infinities, or \<open>NaN\<close>: the search starts its
  running maximum and minimum at \<open>-Infinity\<close> and \<open>Infinity\<close>, a terminal position
  scores \<open>100 - depth\<close> or \<open>-100 + depth\<close>, and \<open>evaluateBoard\<close> adds up powers of
  ten, where \<open>Math.pow(10, n)\<close> is \<open>Infinity\<close> from \<open>n = 309\<close> on and
  \<open>Infinity + -Infinity\<close> is \<open>NaN\<close>.

  The type \<open>score\<close> holds the numbers other than \<open>NaN\<close>, ordered as numbers are;
  \<open>num\<close> adds \<open>NaN\<close>.
\<close>

datatype score = NegInf | Fin int | PosInf

instantiation score :: linorder
begin

fun less_eq_score :: "score \<Rightarrow> score \<Rightarrow> bool" where
  "less_eq_score NegInf y = True"
| "less_eq_score (Fin a) NegInf = False"
| "less_eq_score (Fin a) (Fin b) = (a \<le> b)"
| "less_eq_score (Fin a) PosInf = True"
| "less_eq_score PosInf NegInf = False"
| "less_eq_score PosInf (Fin b) = False"
| "less_eq_score PosInf PosInf = True"

definition less_score :: "score \<Rightarrow> score \<Rightarrow> bool" where
  "less_score x y = (x \<le> y \<and> \<not> y \<le> x)"

instance
proof
  fix x y z :: score
  show "(x < y) = (x \<le> y \<and> \<not> y \<le> x)" by (simp add: less_score_def)
  show "x \<le> x" by (cases x) simp_all
  show "x \<le> y \<Longrightarrow> y \<le> z \<Longrightarrow> x \<le> z" by (cases x; cases y; cases z) simp_all
  show "x \<le> y \<Longrightarrow> y \<le> x \<Longrightarrow> x = y" by (cases x; cases y) simp_all
  show "x \<le> y \<or> y \<le> x" by (cases x; cases y) auto
qed

end

datatype num = NaN | Num score

text \<open>
  \<open>toDouble\<close> rounds an integer to the nearest double, ties to even. Below
  \<open>2^53 = 9007199254740992\<close> every integer is a double; from there on 53 significant
  bits are kept (\<open>round53\<close>), and a magnitude of \<open>2^1024 - 2^970\<close> or more rounds to
  an infinity.
\<close>

function bitLength :: "int \<Rightarrow> nat" where
  "bitLength n = (if n \<le> 0 then 0 else Suc (bitLength (n div 2)))"
  by pat_completeness auto
termination
  by (relation "measure nat") auto

definition round53 :: "int \<Rightarrow> int" where
  "round53 a =
     (let e = bitLength a - 53; q = a div 2 ^ e; r = a mod 2 ^ e; half = 2 ^ (e - 1)
      in (if half < r \<or> (r = half \<and> odd q) then q + 1 else q) * 2 ^ e)"

definition toDouble :: "int \<Rightarrow> num" where
  "toDouble x =
     (if \<bar>x\<bar> < 9007199254740992 then Num (Fin x)
      else if 2 ^ 1024 - 2 ^ 970 \<le> \<bar>x\<bar> then Num (if x < 0 then NegInf else PosInf)
      else Num (Fin (if x < 0 then - round53 \<bar>x\<bar> else round53 \<bar>x\<bar>)))"

text \<open>
  The operations the program applies to scores: \<open>+\<close> (as \<open>+=\<close>), unary \<open>-\<close>,
  \<open>Math.pow(10, n)\<close> for a count \<open>n\<close>, \<open>Math.max\<close>, \<open>Math.min\<close>, \<open><=\<close> and
  \<open>>\<close>. A sum of two finite numbers is the exact sum rounded; \<open>Math.pow(10, n)\<close> is
  taken to be the double nearest to \<open>10^n\<close>, which is \<open>10^n\<close> itself up to \<open>n = 22\<close>.
  \<open>Math.max\<close> and \<open>Math.min\<close> return \<open>NaN\<close> when an argument is \<open>NaN\<close>, and a
  comparison with \<open>NaN\<close> is false.
\<close>

fun jsAdd :: "num \<Rightarrow> num \<Rightarrow> num" where
  "jsAdd (Num (Fin a)) (Num (Fin b)) = toDouble (a + b)"
| "jsAdd (Num PosInf) (Num NegInf) = NaN"
| "jsAdd (Num NegInf) (Num PosInf) = NaN"
| "jsAdd (Num PosInf) (Num y) = Num PosInf"
| "jsAdd (Num NegInf) (Num y) = Num NegInf"
| "jsAdd (Num (Fin a)) (Num y) = Num y"
| "jsAdd NaN y = NaN"
| "jsAdd (Num x) NaN = NaN"

fun jsNeg :: "num \<Rightarrow> num" where
  "jsNeg NaN = NaN"
| "jsNeg (Num NegInf) = Num PosInf"
| "jsNeg (Num (Fin a)) = Num (Fin (- a))"
| "jsNeg (Num PosInf) = Num NegInf"

definition jsPow10 :: "nat \<Rightarrow> num" where
  "jsPow10 n = toDouble (10 ^ n)"

fun jsMax :: "num \<Rightarrow> num \<Rightarrow> num" where
  "jsMax (Num x) (Num y) = Num (max x y)"
| "jsMax NaN y = NaN"
| "jsMax (Num x) NaN = NaN"

fun jsMin :: "num \<Rightarrow> num \<Rightarrow> num" where
  "jsMin (Num x) (Num y) = Num (min x y)"
| "jsMin NaN y = NaN"
| "jsMin (Num x) NaN = NaN"

fun jsLe :: "num \<Rightarrow> num \<Rightarrow> bool" where
  "jsLe (Num x) (Num y) = (x \<le> y)"
| "jsLe NaN y = False"
| "jsLe (Num x) NaN = False"

fun jsGt :: "num \<Rightarrow> num \<Rightarrow> bool" where
  "jsGt (Num x) (Num y) = (y < x)"
| "jsGt NaN y = False"
| "jsGt (Num x) NaN = False"

record AI =
  marker :: string
  opponentMarker :: string
  difficulty :: string
  maxDepth :: nat

definition getMaxDepthForDifficulty :: "string \<Rightarrow> nat" where
  "getMaxDepthForDifficulty d =
     (if d = ''easy'' then 1
      else if d = ''medium'' then 2
      else if d = ''hard'' then 3
      else if d = ''master'' then 4
      else 2)"

definition newAI :: "string \<Rightarrow> string \<Rightarrow> AI" where
  "newAI m d =
     \<lparr>marker = m, opponentMarker = (if m = ''O'' then ''X'' else ''O''),
      difficulty = d, maxDepth = getMaxDepthForDifficulty d\<rparr>"

text \<open>
  \<open>makeRandomMove\<close>: the value \<open>u\<close> is what \<open>Math.random()\<close> returns for this call,
  a number with \<open>0 \<le> u < 1\<close>.
\<close>

definition makeRandomMove :: "real \<Rightarrow> Board \<Rightarrow> Cell option" where
  "makeRandomMove u b =
     (let emptyCells = getEmptyCells b in
      if length emptyCells = 0 then None
      else Some (emptyCells ! nat \<lfloor>u * real (length emptyCells)\<rfloor>))"

text \<open>
  The two scans of \<open>makeMediumMove\<close> differ only in the marker they try. Each places
  the marker on the copy, returns the cell when that wins (leaving the marker on the copy),
  and takes the marker back otherwise. The result carries the copy after the scan.
\<close>

fun winScan :: "string \<Rightarrow> Cell list \<Rightarrow> Board \<Rightarrow> Cell option \<times> Board" where
  "winScan m [] bc = (None, bc)"
| "winScan m (cell # cells) bc =
     (let bc1 = snd (placeMarker bc (int (row cell)) (int (col cell)) m) in
      if checkWin bc1 m then (Some cell, bc1)
      else winScan m cells (snd (undoMove bc1)))"

definition corners :: "Board \<Rightarrow> Cell list" where
  "corners b =
     [\<lparr>row = 0, col = 0\<rparr>, \<lparr>row = 0, col = sizeB b - 1\<rparr>,
      \<lparr>row = sizeB b - 1, col = 0\<rparr>, \<lparr>row = sizeB b - 1, col = sizeB b - 1\<rparr>]"

definition makeMediumMove :: "AI \<Rightarrow> real \<Rightarrow> Board \<Rightarrow> Cell option" where
  "makeMediumMove ai u b =
     (let boardCopy = clone b; emptyCells = getEmptyCells boardCopy in
      case winScan (marker ai) emptyCells boardCopy of
        (Some cell, bc1) \<Rightarrow> Some cell
      | (None, bc1) \<Rightarrow>
          (case winScan (opponentMarker ai) emptyCells bc1 of
             (Some cell, bc2) \<Rightarrow> Some cell
           | (None, bc2) \<Rightarrow>
               (let center = sizeB b div 2 in
                if board b ! center ! center = EMPTY then Some \<lparr>row = center, col = center\<rparr>
                else (case find (\<lambda>corner. board b ! row corner ! col corner = EMPTY) (corners b) of
                        Some corner \<Rightarrow> Some corner
                      | None \<Rightarrow> makeRandomMove u b))))"

text \<open>
  \<open>evaluateLine\<close>, the closure inside \<open>evaluateLines\<close>. The three counters count
  cells of one window, so they are exact.
\<close>

definition evaluateLine :: "AI \<Rightarrow> string list \<Rightarrow> num" where
  "evaluateLine ai line =
     (let myMarkerCount = length (filter (\<lambda>v. v = marker ai) line);
          opponentMarkerCount =
            length (filter (\<lambda>v. v \<noteq> marker ai \<and> v = opponentMarker ai) line)
      in if opponentMarkerCount = 0 \<and> myMarkerCount > 0 then jsPow10 myMarkerCount
         else if myMarkerCount = 0 \<and> opponentMarkerCount > 0
           then jsNeg (jsPow10 opponentMarkerCount)
         else Num (Fin 0))"

text \<open>
  \<open>evaluateLines\<close>: \<open>score\<close> starts at 0 and \<open>score += evaluateLine(line)\<close> runs
  over the windows in the order of the two nested loops.
\<close>

definition evaluateLines :: "AI \<Rightarrow> Board \<Rightarrow> string \<Rightarrow> num" where
  "evaluateLines ai b direction =
     (if direction = ''row'' then
        foldl jsAdd (Num (Fin 0)) (concat (map (\<lambda>r. map (\<lambda>c.
          evaluateLine ai (map (\<lambda>k. board b ! r ! (c + k)) [0..<winLength b]))
          [0..<Suc (sizeB b) - winLength b]) [0..<sizeB b]))
      else if direction = ''col'' then
        foldl jsAdd (Num (Fin 0)) (concat (map (\<lambda>c. map (\<lambda>r.
          evaluateLine ai (map (\<lambda>k. board b ! (r + k) ! c) [0..<winLength b]))
          [0..<Suc (sizeB b) - winLength b]) [0..<sizeB b]))
      else if direction = ''diag'' then
        foldl jsAdd (Num (Fin 0)) (concat (map (\<lambda>r. map (\<lambda>c.
          evaluateLine ai (map (\<lambda>k. board b ! (r + k) ! (c + k)) [0..<winLength b]))
          [0..<Suc (sizeB b) - winLength b]) [0..<Suc (sizeB b) - winLength b]))
      else if direction = ''anti-diag'' then
        foldl jsAdd (Num (Fin 0)) (concat (map (\<lambda>r. map (\<lambda>c.
          evaluateLine ai (map (\<lambda>k. board b ! (r + k) ! nat (c - int k)) [0..<winLength b]))
          (rev [int (winLength b) - 1 .. int (sizeB b) - 1])) [0..<Suc (sizeB b) - winLength b]))
      else Num (Fin 0))"

definition evaluateBoard :: "AI \<Rightarrow> Board \<Rightarrow> num" where
  "evaluateBoard ai b =
     jsAdd (jsAdd (jsAdd (jsAdd (Num (Fin 0)) (evaluateLines ai b ''row''))
                         (evaluateLines ai b ''col''))
                  (evaluateLines ai b ''diag''))
           (evaluateLines ai b ''anti-diag'')"

text \<open>
  \<open>minimax\<close> works on the board it is given: each loop places a marker, recurses and
  takes the marker back, so the result carries the board after the call. \<open>maxLoop\<close>
  and \<open>minLoop\<close> are the two \<open>for\<close> loops over the remaining empty cells, with the
  running \<open>alpha\<close>, \<open>beta\<close> and best score; they stop at \<open>beta <= alpha\<close>.
  \<open>depth\<close> counts nested calls, so \<open>100 - depth\<close> and \<open>-100 + depth\<close> are exact.
\<close>

function minimax :: "AI \<Rightarrow> Board \<Rightarrow> nat \<Rightarrow> bool \<Rightarrow> num \<Rightarrow> num \<Rightarrow> num \<times> Board"
  and maxLoop :: "AI \<Rightarrow> Cell list \<Rightarrow> Board \<Rightarrow> nat \<Rightarrow> num \<Rightarrow> num \<Rightarrow> num \<Rightarrow> num \<times> Board"
  and minLoop :: "AI \<Rightarrow> Cell list \<Rightarrow> Board \<Rightarrow> nat \<Rightarrow> num \<Rightarrow> num \<Rightarrow> num \<Rightarrow> num \<times> Board"
where
  "minimax ai b depth isMaximizing alpha beta =
     (if checkWin b (marker ai) then (Num (Fin (100 - int depth)), b)
      else if checkWin b (opponentMarker ai) then (Num (Fin (- 100 + int depth)), b)
      else if checkDraw b \<or> depth \<ge> maxDepth ai then (evaluateBoard ai b, b)
      else if isMaximizing then maxLoop ai (getEmptyCells b) b depth alpha beta (Num NegInf)
      else minLoop ai (getEmptyCells b) b depth alpha beta (Num PosInf))"
| "maxLoop ai [] b depth alpha beta maxScore = (maxScore, b)"
| "maxLoop ai (cell # cells) b depth alpha beta maxScore =
     (let b1 = snd (placeMarker b (int (row cell)) (int (col cell)) (marker ai));
          res = minimax ai b1 (depth + 1) False alpha beta;
          b3 = snd (undoMove (snd res));
          maxScore' = jsMax maxScore (fst res);
          alpha' = jsMax alpha (fst res)
      in if jsLe beta alpha' then (maxScore', b3)
         else maxLoop ai cells b3 depth alpha' beta maxScore')"
| "minLoop ai [] b depth alpha beta minScore = (minScore, b)"
| "minLoop ai (cell # cells) b depth alpha beta minScore =
     (let b1 = snd (placeMarker b (int (row cell)) (int (col cell)) (opponentMarker ai));
          res = minimax ai b1 (depth + 1) True alpha beta;
          b3 = snd (undoMove (snd res));
          minScore' = jsMin minScore (fst res);
          beta' = jsMin beta (fst res)
      in if jsLe beta' alpha then (minScore', b3)
         else minLoop ai cells b3 depth alpha beta' minScore')"
  by pat_completeness auto
termination
  by (relation "inv_image (less_than <*lex*> less_than)
        (\<lambda>x. case x of
           Inl (ai, b, depth, isMaximizing, alpha, beta) \<Rightarrow> (maxDepth ai - depth, 0)
         | Inr (Inl (ai, cells, b, depth, alpha, beta, m)) \<Rightarrow>
             (maxDepth ai - Suc depth, Suc (length cells))
         | Inr (Inr (ai, cells, b, depth, alpha, beta, m)) \<Rightarrow>
             (maxDepth ai - Suc depth, Suc (length cells)))")
     auto

text \<open>The loop of \<open>makeMinimaxMove\<close> over the empty cells, with \<open>bestScore\<close> and \<open>bestMove\<close>.\<close>

fun bestLoop :: "AI \<Rightarrow> Cell list \<Rightarrow> Board \<Rightarrow> num \<Rightarrow> Cell option \<Rightarrow> Cell option \<times> Board" where
  "bestLoop ai [] bc bestScore bestMove = (bestMove, bc)"
| "bestLoop ai (cell # cells) bc bestScore bestMove =
     (let b1 = snd (placeMarker bc (int (row cell)) (int (col cell)) (marker ai));
          res = minimax ai b1 0 False (Num NegInf) (Num PosInf);
          b3 = snd (undoMove (snd res))
      in if jsGt (fst res) bestScore then bestLoop ai cells b3 (fst res) (Some cell)
         else bestLoop ai cells b3 bestScore bestMove)"

definition makeMinimaxMove :: "AI \<Rightarrow> real \<Rightarrow> Board \<Rightarrow> Cell option" where
  "makeMinimaxMove ai u b =
     (let boardCopy = clone b; emptyCells = getEmptyCells boardCopy in
      if length emptyCells = 0 then None
      else if length emptyCells = 1 then Some (emptyCells ! 0)
      else if int (length emptyCells) > int (sizeB b) * int (sizeB b) - 3
        then makeMediumMove ai u b
      else fst (bestLoop ai emptyCells boardCopy (Num NegInf) None))"

definition makeMove :: "AI \<Rightarrow> real \<Rightarrow> Board \<Rightarrow> Cell option" where
  "makeMove ai u b =
     (if difficulty ai = ''easy'' then makeRandomMove u b
      else if difficulty ai = ''medium'' then makeMediumMove ai u b
      else makeMinimaxMove ai u b)"

subsection \<open>Statements of the specification about the AI\<close>

text \<open>
  The rule cascade of the Heuristic tier in the words of the specification. A trial
  placement of a marker on a cell wins when \<open>checkWin\<close> holds for that marker on the
  board with the marker placed.
\<close>

definition trialWins :: "Board \<Rightarrow> string \<Rightarrow> Cell \<Rightarrow> bool" where
  "trialWins b m cell =
     checkWin (snd (placeMarker b (int (row cell)) (int (col cell)) m)) m"

definition cascade :: "AI \<Rightarrow> real \<Rightarrow> Board \<Rightarrow> Cell option" where
  "cascade ai u b =
     (case find (trialWins b (marker ai)) (getEmptyCells b) of
        Some cell \<Rightarrow> Some cell
      | None \<Rightarrow>
     (case find (trialWins b (opponentMarker ai)) (getEmptyCells b) of
        Some cell \<Rightarrow> Some cell
      | None \<Rightarrow>
     (if board b ! (sizeB b div 2) ! (sizeB b div 2) = EMPTY
        then Some \<lparr>row = sizeB b div 2, col = sizeB b div 2\<rparr>
      else
     (case find (\<lambda>corner. board b ! row corner ! col corner = EMPTY)
             [\<lparr>row = 0, col = 0\<rparr>, \<lparr>row = 0, col = sizeB b - 1\<rparr>,
              \<lparr>row = sizeB b - 1, col = 0\<rparr>, \<lparr>row = sizeB b - 1, col = sizeB b - 1\<rparr>] of
        Some corner \<Rightarrow> Some corner
      | None \<Rightarrow> makeRandomMove u b))))"

text \<open>
  The same search with the pruning removed: \<open>minimaxNP\<close>, \<open>maxLoopNP\<close>,
  \<open>minLoopNP\<close>, \<open>bestLoopNP\<close> and \<open>makeMinimaxMoveNP\<close> are \<open>minimax\<close>, its two
  loops, \<open>bestLoop\<close> and \<open>makeMinimaxMove\<close> without the two
  \<open>if (beta <= alpha) break\<close> statements.
\<close>

function minimaxNP :: "AI \<Rightarrow> Board \<Rightarrow> nat \<Rightarrow> bool \<Rightarrow> num \<Rightarrow> num \<Rightarrow> num \<times> Board"
  and maxLoopNP :: "AI \<Rightarrow> Cell list \<Rightarrow> Board \<Rightarrow> nat \<Rightarrow> num \<Rightarrow> num \<Rightarrow> num \<Rightarrow> num \<times> Board"
  and minLoopNP :: "AI \<Rightarrow> Cell list \<Rightarrow> Board \<Rightarrow> nat \<Rightarrow> num \<Rightarrow> num \<Rightarrow> num \<Rightarrow> num \<times> Board"
where
  "minimaxNP ai b depth isMaximizing alpha beta =
     (if checkWin b (marker ai) then (Num (Fin (100 - int depth)), b)
      else if checkWin b (opponentMarker ai) then (Num (Fin (- 100 + int depth)), b)
      else if checkDraw b \<or> depth \<ge> maxDepth ai then (evaluateBoard ai b, b)
      else if isMaximizing then maxLoopNP ai (getEmptyCells b) b depth alpha beta (Num NegInf)
      else minLoopNP ai (getEmptyCells b) b depth alpha beta (Num PosInf))"
| "maxLoopNP ai [] b depth alpha beta maxScore = (maxScore, b)"
| "maxLoopNP ai (cell # cells) b depth alpha beta maxScore =
     (let b1 = snd (placeMarker b (int (row cell)) (int (col cell)) (marker ai));
          res = minimaxNP ai b1 (depth + 1) False alpha beta;
          b3 = snd (undoMove (snd res));
          maxScore' = jsMax maxScore (fst res);
          alpha' = jsMax alpha (fst res)
      in maxLoopNP ai cells b3 depth alpha' beta maxScore')"
| "minLoopNP ai [] b depth alpha beta minScore = (minScore, b)"
| "minLoopNP ai (cell # cells) b depth alpha beta minScore =
     (let b1 = snd (placeMarker b (int (row cell)) (int (col cell)) (opponentMarker ai));
          res = minimaxNP ai b1 (depth + 1) True alpha beta;
          b3 = snd (undoMove (snd res));
          minScore' = jsMin minScore (fst res);
          beta' = jsMin beta (fst res)
      in minLoopNP ai cells b3 depth alpha beta' minScore')"
  by pat_completeness auto
termination
  by (relation "inv_image (less_than <*lex*> less_than)
        (\<lambda>x. case x of
           Inl (ai, b, depth, isMaximizing, alpha, beta) \<Rightarrow> (maxDepth ai - depth, 0)
         | Inr (Inl (ai, cells, b, depth, alpha, beta, m)) \<Rightarrow>
             (maxDepth ai - Suc depth, Suc (length cells))
         | Inr (Inr (ai, cells, b, depth, alpha, beta, m)) \<Rightarrow>
             (maxDepth ai - Suc depth, Suc (length cells)))")
     auto

fun bestLoopNP :: "AI \<Rightarrow> Cell list \<Rightarrow> Board \<Rightarrow> num \<Rightarrow> Cell option \<Rightarrow> Cell option \<times> Board" where
  "bestLoopNP ai [] bc bestScore bestMove = (bestMove, bc)"
| "bestLoopNP ai (cell # cells) bc bestScore bestMove =
     (let b1 = snd (placeMarker bc (int (row cell)) (int (col cell)) (marker ai));
          res = minimaxNP ai b1 0 False (Num NegInf) (Num PosInf);
          b3 = snd (undoMove (snd res))
      in if jsGt (fst res) bestScore then bestLoopNP ai cells b3 (fst res) (Some cell)
         else bestLoopNP ai cells b3 bestScore bestMove)"

definition makeMinimaxMoveNP :: "AI \<Rightarrow> real \<Rightarrow> Board \<Rightarrow> Cell option" where
  "makeMinimaxMoveNP ai u b =
     (let boardCopy = clone b; emptyCells = getEmptyCells boardCopy in
      if length emptyCells = 0 then None
      else if length emptyCells = 1 then Some (emptyCells ! 0)
      else if int (length emptyCells) > int (sizeB b) * int (sizeB b) - 3
        then makeMediumMove ai u b
      else fst (bestLoopNP ai emptyCells boardCopy (Num NegInf) None))"

subsection \<open>Scores computed in the integers\<close>

text \<open>
  For the proofs about the search: \<open>evaluateLineZ\<close>, \<open>evaluateLinesZ\<close>,
  \<open>evaluateBoardZ\<close>, \<open>minimaxZ\<close> with its loops, \<open>bestLoopZ\<close>, and their
  counterparts without pruning, are the functions above with every score computed in the
  integers, where no sum rounds or overflows. \<open>exactScores\<close> holds of a board when the
  number of windows times the largest window score stays below
  \<open>2^53 = 9007199254740992\<close>; on such a board
  all double arithmetic of \<open>evaluateBoard\<close> is exact. It depends on \<open>size\<close> and
  \<open>winLength\<close> only and holds for every board size from 3 to 7 that the game offers.
\<close>

definition exactScores :: "Board \<Rightarrow> bool" where
  "exactScores b =
     (4 * (int (sizeB b) + 1) * (int (sizeB b) + 1) * 10 ^ winLength b < 9007199254740992)"

definition evaluateLineZ :: "AI \<Rightarrow> string list \<Rightarrow> int" where
  "evaluateLineZ ai line =
     (let myMarkerCount = length (filter (\<lambda>v. v = marker ai) line);
          opponentMarkerCount =
            length (filter (\<lambda>v. v \<noteq> marker ai \<and> v = opponentMarker ai) line)
      in if opponentMarkerCount = 0 \<and> myMarkerCount > 0 then 10 ^ myMarkerCount
         else if myMarkerCount = 0 \<and> opponentMarkerCount > 0 then - (10 ^ opponentMarkerCount)
         else 0)"

definition evaluateLinesZ :: "AI \<Rightarrow> Board \<Rightarrow> string \<Rightarrow> int" where
  "evaluateLinesZ ai b direction =
     (if direction = ''row'' then
        sum_list (concat (map (\<lambda>r. map (\<lambda>c.
          evaluateLineZ ai (map (\<lambda>k. board b ! r ! (c + k)) [0..<winLength b]))
          [0..<Suc (sizeB b) - winLength b]) [0..<sizeB b]))
      else if direction = ''col'' then
        sum_list (concat (map (\<lambda>c. map (\<lambda>r.
          evaluateLineZ ai (map (\<lambda>k. board b ! (r + k) ! c) [0..<winLength b]))
          [0..<Suc (sizeB b) - winLength b]) [0..<sizeB b]))
      else if direction = ''diag'' then
        sum_list (concat (map (\<lambda>r. map (\<lambda>c.
          evaluateLineZ ai (map (\<lambda>k. board b ! (r + k) ! (c + k)) [0..<winLength b]))
          [0..<Suc (sizeB b) - winLength b]) [0..<Suc (sizeB b) - winLength b]))
      else if direction = ''anti-diag'' then
        sum_list (concat (map (\<lambda>r. map (\<lambda>c.
          evaluateLineZ ai (map (\<lambda>k. board b ! (r + k) ! nat (c - int k)) [0..<winLength b]))
          (rev [int (winLength b) - 1 .. int (sizeB b) - 1])) [0..<Suc (sizeB b) - winLength b]))
      else 0)"

definition evaluateBoardZ :: "AI \<Rightarrow> Board \<Rightarrow> int" where
  "evaluateBoardZ ai b =
     evaluateLinesZ ai b ''row'' + evaluateLinesZ ai b ''col'' +
     evaluateLinesZ ai b ''diag'' + evaluateLinesZ ai b ''anti-diag''"

function minimaxZ :: "AI \<Rightarrow> Board \<Rightarrow> nat \<Rightarrow> bool \<Rightarrow> score \<Rightarrow> score \<Rightarrow> score \<times> Board"
  and maxLoopZ :: "AI \<Rightarrow> Cell list \<Rightarrow> Board \<Rightarrow> nat \<Rightarrow> score \<Rightarrow> score \<Rightarrow> score \<Rightarrow> score \<times> Board"
  and minLoopZ :: "AI \<Rightarrow> Cell list \<Rightarrow> Board \<Rightarrow> nat \<Rightarrow> score \<Rightarrow> score \<Rightarrow> score \<Rightarrow> score \<times> Board"
where
  "minimaxZ ai b depth isMaximizing alpha beta =
     (if checkWin b (marker ai) then (Fin (100 - int depth), b)
      else if checkWin b (opponentMarker ai) then (Fin (- 100 + int depth), b)
      else if checkDraw b \<or> depth \<ge> maxDepth ai then (Fin (evaluateBoardZ ai b), b)
      else if isMaximizing then maxLoopZ ai (getEmptyCells b) b depth alpha beta NegInf
      else minLoopZ ai (getEmptyCells b) b depth alpha beta PosInf)"
| "maxLoopZ ai [] b depth alpha beta maxScore = (maxScore, b)"
| "maxLoopZ ai (cell # cells) b depth alpha beta maxScore =
     (let b1 = snd (placeMarker b (int (row cell)) (int (col cell)) (marker ai));
          res = minimaxZ ai b1 (depth + 1) False alpha beta;
          b3 = snd (undoMove (snd res));
          maxScore' = max maxScore (fst res);
          alpha' = max alpha (fst res)
      in if beta \<le> alpha' then (maxScore', b3)
         else maxLoopZ ai cells b3 depth alpha' beta maxScore')"
| "minLoopZ ai [] b depth alpha beta minScore = (minScore, b)"
| "minLoopZ ai (cell # cells) b depth alpha beta minScore =
     (let b1 = snd (placeMarker b (int (row cell)) (int (col cell)) (opponentMarker ai));
          res = minimaxZ ai b1 (depth + 1) True alpha beta;
          b3 = snd (undoMove (snd res));
          minScore' = min minScore (fst res);
          beta' = min beta (fst res)
      in if beta' \<le> alpha then (minScore', b3)
         else minLoopZ ai cells b3 depth alpha beta' minScore')"
  by pat_completeness auto
termination
  by (relation "inv_image (less_than <*lex*> less_than)
        (\<lambda>x. case x of
           Inl (ai, b, depth, isMaximizing, alpha, beta) \<Rightarrow> (maxDepth ai - depth, 0)
         | Inr (Inl (ai, cells, b, depth, alpha, beta, m)) \<Rightarrow>
             (maxDepth ai - Suc depth, Suc (length cells))
         | Inr (Inr (ai, cells, b, depth, alpha, beta, m)) \<Rightarrow>
             (maxDepth ai - Suc depth, Suc (length cells)))")
     auto

fun bestLoopZ :: "AI \<Rightarrow> Cell list \<Rightarrow> Board \<Rightarrow> score \<Rightarrow> Cell option \<Rightarrow> Cell option \<times> Board" where
  "bestLoopZ ai [] bc bestScore bestMove = (bestMove, bc)"
| "bestLoopZ ai (cell # cells) bc bestScore bestMove =
     (let b1 = snd (placeMarker bc (int (row cell)) (int (col cell)) (marker ai));
          res = minimaxZ ai b1 0 False NegInf PosInf;
          b3 = snd (undoMove (snd res))
      in if fst res > bestScore then bestLoopZ ai cells b3 (fst res) (Some cell)
         else bestLoopZ ai cells b3 bestScore bestMove)"

function minimaxNPZ :: "AI \<Rightarrow> Board \<Rightarrow> nat \<Rightarrow> bool \<Rightarrow> score \<Rightarrow> score \<Rightarrow> score \<times> Board"
  and maxLoopNPZ :: "AI \<Rightarrow> Cell list \<Rightarrow> Board \<Rightarrow> nat \<Rightarrow> score \<Rightarrow> score \<Rightarrow> score \<Rightarrow> score \<times> Board"
  and minLoopNPZ :: "AI \<Rightarrow> Cell list \<Rightarrow> Board \<Rightarrow> nat \<Rightarrow> score \<Rightarrow> score \<Rightarrow> score \<Rightarrow> score \<times> Board"
where
  "minimaxNPZ ai b depth isMaximizing alpha beta =
     (if checkWin b (marker ai) then (Fin (100 - int depth), b)
      else if checkWin b (opponentMarker ai) then (Fin (- 100 + int depth), b)
      else if checkDraw b \<or> depth \<ge> maxDepth ai then (Fin (evaluateBoardZ ai b), b)
      else if isMaximizing then maxLoopNPZ ai (getEmptyCells b) b depth alpha beta NegInf
      else minLoopNPZ ai (getEmptyCells b) b depth alpha beta PosInf)"
| "maxLoopNPZ ai [] b depth alpha beta maxScore = (maxScore, b)"
| "maxLoopNPZ ai (cell # cells) b depth alpha beta maxScore =
     (let b1 = snd (placeMarker b (int (row cell)) (int (col cell)) (marker ai));
          res = minimaxNPZ ai b1 (depth + 1) False alpha beta;
          b3 = snd (undoMove (snd res));
          maxScore' = max maxScore (fst res);
          alpha' = max alpha (fst res)
      in maxLoopNPZ ai cells b3 depth alpha' beta maxScore')"
| "minLoopNPZ ai [] b depth alpha beta minScore = (minScore, b)"
| "minLoopNPZ ai (cell # cells) b depth alpha beta minScore =
     (let b1 = snd (placeMarker b (int (row cell)) (int (col cell)) (opponentMarker ai));
          res = minimaxNPZ ai b1 (depth + 1) True alpha beta;
          b3 = snd (undoMove (snd res));
          minScore' = min minScore (fst res);
          beta' = min beta (fst res)
      in minLoopNPZ ai cells b3 depth alpha beta' minScore')"
  by pat_completeness auto
termination
  by (relation "inv_image (less_than <*lex*> less_than)
        (\<lambda>x. case x of
           Inl (ai, b, depth, isMaximizing, alpha, beta) \<Rightarrow> (maxDepth ai - depth, 0)
         | Inr (Inl (ai, cells, b, depth, alpha, beta, m)) \<Rightarrow>
             (maxDepth ai - Suc depth, Suc (length cells))
         | Inr (Inr (ai, cells, b, depth, alpha, beta, m)) \<Rightarrow>
             (maxDepth ai - Suc depth, Suc (length cells)))")
     auto

fun bestLoopNPZ :: "AI \<Rightarrow> Cell list \<Rightarrow> Board \<Rightarrow> score \<Rightarrow> Cell option \<Rightarrow> Cell option \<times> Board" where
  "bestLoopNPZ ai [] bc bestScore bestMove = (bestMove, bc)"
| "bestLoopNPZ ai (cell # cells) bc bestScore bestMove =
     (let b1 = snd (placeMarker bc (int (row cell)) (int (col cell)) (marker ai));
          res = minimaxNPZ ai b1 0 False NegInf PosInf;
          b3 = snd (undoMove (snd res))
      in if fst res > bestScore then bestLoopNPZ ai cells b3 (fst res) (Some cell)
         else bestLoopNPZ ai cells b3 bestScore bestMove)"

text \<open>
  The relation between an exact value \<open>v\<close> and the result \<open>r\<close> of a search with
  window \<open>(a, b)\<close>: exact inside the window, a bound on the right side outside it.
\<close>

definition bounds :: "score \<Rightarrow> score \<Rightarrow> score \<Rightarrow> score \<Rightarrow> bool" where
  "bounds a b v r = ((r \<le> a \<longrightarrow> v \<le> r) \<and> (a < r \<and> r < b \<longrightarrow> r = v) \<and> (b \<le> r \<longrightarrow> r \<le> v))"

text \<open>A cell that \<open>getEmptyCells\<close> can return: inside the grid and blank.\<close>

definition emptyIn :: "Board \<Rightarrow> Cell \<Rightarrow> bool" where
  "emptyIn b cell =
     (row cell < sizeB b \<and> col cell < sizeB b \<and> board b ! row cell ! col cell = EMPTY)"

text \<open>A score that is a number, not one of the infinities.\<close>

definition isFin :: "score \<Rightarrow> bool" where
  "isFin s = (\<exists>n. s = Fin n)"

section \<open>Boards as objects in a store\<close>

text \<open>
  \<open>makeMove\<close> receives a reference to the caller's board and works on the object that
  \<open>clone()\<close> returns. Whether the caller's board is touched depends on which arrays the two
  objects share, so this section models the objects and arrays of \<open>Board\<close> in a store:
  a \<open>Board\<close> object holds references to its outer array and to its history array, the
  outer array holds references to the row arrays, and \<open>placeMarker\<close> and \<open>undoMove\<close>
  write into the row and history arrays they reach from \<open>this\<close>. Allocation takes the next
  unused address.
\<close>

type_synonym addr = nat

record BoardObj =
  o_size :: nat
  o_winLength :: nat
  o_board :: addr
  o_moveHistory :: addr
  o_currentPlayer :: string

record Heap =
  objsH :: "addr \<Rightarrow> BoardObj"
  gridsH :: "addr \<Rightarrow> addr list"
  rowsH :: "addr \<Rightarrow> string list"
  histsH :: "addr \<Rightarrow> Move list"
  nextH :: addr

text \<open>The state of the board object at an address, read through its references.\<close>

definition absBoard :: "Heap \<Rightarrow> addr \<Rightarrow> Board" where
  "absBoard h a =
     \<lparr>sizeB = o_size (objsH h a),
      winLength = o_winLength (objsH h a),
      board = map (rowsH h) (gridsH h (o_board (objsH h a))),
      moveHistory = histsH h (o_moveHistory (objsH h a)),
      currentPlayer = o_currentPlayer (objsH h a)\<rparr>"

definition allocRows :: "Heap \<Rightarrow> string list list \<Rightarrow> addr list \<times> Heap" where
  "allocRows h rs =
     ([nextH h ..< nextH h + length rs],
      h\<lparr>rowsH := (\<lambda>a. if nextH h \<le> a \<and> a < nextH h + length rs
                         then rs ! (a - nextH h) else rowsH h a),
        nextH := nextH h + length rs\<rparr>)"

definition allocGrid :: "Heap \<Rightarrow> addr list \<Rightarrow> addr \<times> Heap" where
  "allocGrid h g = (nextH h, h\<lparr>gridsH := (gridsH h)(nextH h := g), nextH := Suc (nextH h)\<rparr>)"

definition allocHist :: "Heap \<Rightarrow> Move list \<Rightarrow> addr \<times> Heap" where
  "allocHist h ms = (nextH h, h\<lparr>histsH := (histsH h)(nextH h := ms), nextH := Suc (nextH h)\<rparr>)"

definition allocObj :: "Heap \<Rightarrow> BoardObj \<Rightarrow> addr \<times> Heap" where
  "allocObj h ob = (nextH h, h\<lparr>objsH := (objsH h)(nextH h := ob), nextH := Suc (nextH h)\<rparr>)"

text \<open>\<open>new Board(size, winLength)\<close>: the constructor allocates a blank grid and an empty history.\<close>

definition hNewBoard :: "Heap \<Rightarrow> nat \<Rightarrow> nat \<Rightarrow> addr \<times> Heap" where
  "hNewBoard h n w =
     (let (rs, h1) = allocRows h (replicate n (replicate n EMPTY));
          (g, h2) = allocGrid h1 rs;
          (ms, h3) = allocHist h2 []
      in allocObj h3 \<lparr>o_size = n, o_winLength = w, o_board = g, o_moveHistory = ms,
                       o_currentPlayer = ''O''\<rparr>)"

text \<open>
  \<open>clone()\<close>: a new object, then \<open>this.board.map(row => [...row])\<close> allocates a copy of
  every row and an outer array of the copies, and \<open>[...this.moveHistory]\<close> allocates a copy of
  the history array.
\<close>

definition hClone :: "Heap \<Rightarrow> addr \<Rightarrow> addr \<times> Heap" where
  "hClone h this =
     (let (nb, h1) = hNewBoard h (o_size (objsH h this)) (o_winLength (objsH h this));
          (rs, h2) = allocRows h1 (map (rowsH h1) (gridsH h1 (o_board (objsH h1 this))));
          (g, h3) = allocGrid h2 rs;
          (ms, h4) = allocHist h3 (histsH h3 (o_moveHistory (objsH h3 this)))
      in (nb, h4\<lparr>objsH := (objsH h4)
                   (nb := (objsH h4 nb)\<lparr>o_board := g, o_moveHistory := ms,
                                          o_currentPlayer := o_currentPlayer (objsH h4 this)\<rparr>)\<rparr>))"

definition hPlaceMarker :: "Heap \<Rightarrow> addr \<Rightarrow> int \<Rightarrow> int \<Rightarrow> string \<Rightarrow> bool \<times> Heap" where
  "hPlaceMarker h this r c p =
     (let ob = objsH h this; g = gridsH h (o_board ob) in
      if r < 0 \<or> r \<ge> int (o_size ob) \<or> c < 0 \<or> c \<ge> int (o_size ob) then (False, h)
      else if rowsH h (g ! nat r) ! nat c \<noteq> EMPTY then (False, h)
      else (True,
            h\<lparr>rowsH := (rowsH h)(g ! nat r := (rowsH h (g ! nat r))[nat c := p]),
              histsH := (histsH h)(o_moveHistory ob :=
                 histsH h (o_moveHistory ob) @ [\<lparr>row = nat r, col = nat c, player = p\<rparr>])\<rparr>))"

definition hUndoMove :: "Heap \<Rightarrow> addr \<Rightarrow> Move option \<times> Heap" where
  "hUndoMove h this =
     (let ob = objsH h this; g = gridsH h (o_board ob); ms = histsH h (o_moveHistory ob) in
      if length ms = 0 then (None, h)
      else (let lastMove = last ms in
            (Some lastMove,
             h\<lparr>histsH := (histsH h)(o_moveHistory ob := butlast ms),
               rowsH := (rowsH h)(g ! row lastMove :=
                  (rowsH h (g ! row lastMove))[col lastMove := EMPTY])\<rparr>)))"

text \<open>
  The AI on the store. The methods that only read a board (\<open>checkWin\<close>, \<open>checkDraw\<close>,
  \<open>getEmptyCells\<close>, \<open>evaluateBoard\<close>, and the reads of \<open>board.size\<close> and
  \<open>board.board[r][c]\<close>) see the state of the object they are called on.
\<close>

definition hMakeRandomMove :: "Heap \<Rightarrow> real \<Rightarrow> addr \<Rightarrow> Cell option \<times> Heap" where
  "hMakeRandomMove h u b = (makeRandomMove u (absBoard h b), h)"

fun hWinScan :: "Heap \<Rightarrow> string \<Rightarrow> Cell list \<Rightarrow> addr \<Rightarrow> Cell option \<times> Heap" where
  "hWinScan h m [] bc = (None, h)"
| "hWinScan h m (cell # cells) bc =
     (let h1 = snd (hPlaceMarker h bc (int (row cell)) (int (col cell)) m) in
      if checkWin (absBoard h1 bc) m then (Some cell, h1)
      else hWinScan (snd (hUndoMove h1 bc)) m cells bc)"

definition hMakeMediumMove :: "Heap \<Rightarrow> AI \<Rightarrow> real \<Rightarrow> addr \<Rightarrow> Cell option \<times> Heap" where
  "hMakeMediumMove h ai u b =
     (let (boardCopy, h0) = hClone h b; emptyCells = getEmptyCells (absBoard h0 boardCopy) in
      case hWinScan h0 (marker ai) emptyCells boardCopy of
        (Some cell, h1) \<Rightarrow> (Some cell, h1)
      | (None, h1) \<Rightarrow>
          (case hWinScan h1 (opponentMarker ai) emptyCells boardCopy of
             (Some cell, h2) \<Rightarrow> (Some cell, h2)
           | (None, h2) \<Rightarrow>
               (let center = sizeB (absBoard h2 b) div 2 in
                if board (absBoard h2 b) ! center ! center = EMPTY
                  then (Some \<lparr>row = center, col = center\<rparr>, h2)
                else (case find (\<lambda>corner. board (absBoard h2 b) ! row corner ! col corner = EMPTY)
                             (corners (absBoard h2 b)) of
                        Some corner \<Rightarrow> (Some corner, h2)
                      | None \<Rightarrow> hMakeRandomMove h2 u b))))"

function hMinimax :: "Heap \<Rightarrow> AI \<Rightarrow> addr \<Rightarrow> nat \<Rightarrow> bool \<Rightarrow> num \<Rightarrow> num \<Rightarrow> num \<times> Heap"
  and hMaxLoop :: "Heap \<Rightarrow> AI \<Rightarrow> Cell list \<Rightarrow> addr \<Rightarrow> nat \<Rightarrow> num \<Rightarrow> num \<Rightarrow> num \<Rightarrow> num \<times> Heap"
  and hMinLoop :: "Heap \<Rightarrow> AI \<Rightarrow> Cell list \<Rightarrow> addr \<Rightarrow> nat \<Rightarrow> num \<Rightarrow> num \<Rightarrow> num \<Rightarrow> num \<times> Heap"
where
  "hMinimax h ai b depth isMaximizing alpha beta =
     (if checkWin (absBoard h b) (marker ai) then (Num (Fin (100 - int depth)), h)
      else if checkWin (absBoard h b) (opponentMarker ai) then (Num (Fin (- 100 + int depth)), h)
      else if checkDraw (absBoard h b) \<or> depth \<ge> maxDepth ai
        then (evaluateBoard ai (absBoard h b), h)
      else if isMaximizing
        then hMaxLoop h ai (getEmptyCells (absBoard h b)) b depth alpha beta (Num NegInf)
      else hMinLoop h ai (getEmptyCells (absBoard h b)) b depth alpha beta (Num PosInf))"
| "hMaxLoop h ai [] b depth alpha beta maxScore = (maxScore, h)"
| "hMaxLoop h ai (cell # cells) b depth alpha beta maxScore =
     (let h1 = snd (hPlaceMarker h b (int (row cell)) (int (col cell)) (marker ai));
          res = hMinimax h1 ai b (depth + 1) False alpha beta;
          h3 = snd (hUndoMove (snd res) b);
          maxScore' = jsMax maxScore (fst res);
          alpha' = jsMax alpha (fst res)
      in if jsLe beta alpha' then (maxScore', h3)
         else hMaxLoop h3 ai cells b depth alpha' beta maxScore')"
| "hMinLoop h ai [] b depth alpha beta minScore = (minScore, h)"
| "hMinLoop h ai (cell # cells) b depth alpha beta minScore =
     (let h1 = snd (hPlaceMarker h b (int (row cell)) (int (col cell)) (opponentMarker ai));
          res = hMinimax h1 ai b (depth + 1) True alpha beta;
          h3 = snd (hUndoMove (snd res) b);
          minScore' = jsMin minScore (fst res);
          beta' = jsMin beta (fst res)
      in if jsLe beta' alpha then (minScore', h3)
         else hMinLoop h3 ai cells b depth alpha beta' minScore')"
  by pat_completeness auto
termination
  by (relation "inv_image (less_than <*lex*> less_than)
        (\<lambda>x. case x of
           Inl (h, ai, b, depth, isMaximizing, alpha, beta) \<Rightarrow> (maxDepth ai - depth, 0)
         | Inr (Inl (h, ai, cells, b, depth, alpha, beta, m)) \<Rightarrow>
             (maxDepth ai - Suc depth, Suc (length cells))
         | Inr (Inr (h, ai, cells, b, depth, alpha, beta, m)) \<Rightarrow>
             (maxDepth ai - Suc depth, Suc (length cells)))")
     auto

fun hBestLoop :: "Heap \<Rightarrow> AI \<Rightarrow> Cell list \<Rightarrow> addr \<Rightarrow> num \<Rightarrow> Cell option \<Rightarrow> Cell option \<times> Heap" where
  "hBestLoop h ai [] bc bestScore bestMove = (bestMove, h)"
| "hBestLoop h ai (cell # cells) bc bestScore bestMove =
     (let h1 = snd (hPlaceMarker h bc (int (row cell)) (int (col cell)) (marker ai));
          res = hMinimax h1 ai bc 0 False (Num NegInf) (Num PosInf);
          h3 = snd (hUndoMove (snd res) bc)
      in if jsGt (fst res) bestScore then hBestLoop h3 ai cells bc (fst res) (Some cell)
         else hBestLoop h3 ai cells bc bestScore bestMove)"

definition hMakeMinimaxMove :: "Heap \<Rightarrow> AI \<Rightarrow> real \<Rightarrow> addr \<Rightarrow> Cell option \<times> Heap" where
  "hMakeMinimaxMove h ai u b =
     (let (boardCopy, h0) = hClone h b; emptyCells = getEmptyCells (absBoard h0 boardCopy) in
      if length emptyCells = 0 then (None, h0)
      else if length emptyCells = 1 then (Some (emptyCells ! 0), h0)
      else if int (length emptyCells) > int (sizeB (absBoard h0 b)) * int (sizeB (absBoard h0 b)) - 3
        then hMakeMediumMove h0 ai u b
      else hBestLoop h0 ai emptyCells boardCopy (Num NegInf) None)"

definition hMakeMove :: "Heap \<Rightarrow> AI \<Rightarrow> real \<Rightarrow> addr \<Rightarrow> Cell option \<times> Heap" where
  "hMakeMove h ai u b =
     (if difficulty ai = ''easy'' then hMakeRandomMove h u b
      else if difficulty ai = ''medium'' then hMakeMediumMove h ai u b
      else hMakeMinimaxMove h ai u b)"

text \<open>
  A board object is allocated when the object, its outer array, its rows and its history
  array lie below the allocation pointer, and its rows are distinct arrays.
\<close>

definition allocated :: "Heap \<Rightarrow> addr \<Rightarrow> bool" where
  "allocated h a =
     (a < nextH h \<and> o_board (objsH h a) < nextH h \<and> o_moveHistory (objsH h a) < nextH h \<and>
      (\<forall>r \<in> set (gridsH h (o_board (objsH h a))). r < nextH h) \<and>
      distinct (gridsH h (o_board (objsH h a))))"

text \<open>Everything below address \<open>n\<close> is the same in both stores.\<close>

definition sameBelow :: "addr \<Rightarrow> Heap \<Rightarrow> Heap \<Rightarrow> bool" where
  "sameBelow n h h' =
     (\<forall>a<n. objsH h' a = objsH h a \<and> gridsH h' a = gridsH h a \<and>
            rowsH h' a = rowsH h a \<and> histsH h' a = histsH h a)"

text \<open>
  The store \<open>h'\<close> differs from \<open>h\<close> at most in the rows and the history array of the
  object at \<open>c\<close>.
\<close>

definition writesOnly :: "addr \<Rightarrow> Heap \<Rightarrow> Heap \<Rightarrow> bool" where
  "writesOnly c h h' =
     (objsH h' = objsH h \<and> gridsH h' = gridsH h \<and> nextH h' = nextH h \<and>
      (\<forall>a. a \<notin> set (gridsH h (o_board (objsH h c))) \<longrightarrow> rowsH h' a = rowsH h a) \<and>
      (\<forall>a. a \<noteq> o_moveHistory (objsH h c) \<longrightarrow> histsH h' a = histsH h a))"

text \<open>The object at \<open>c\<close> lies entirely at or above address \<open>n\<close>, with distinct rows.\<close>

definition ownedAbove :: "addr \<Rightarrow> Heap \<Rightarrow> addr \<Rightarrow> bool" where
  "ownedAbove n h c =
     (n \<le> c \<and> n \<le> o_board (objsH h c) \<and> n \<le> o_moveHistory (objsH h c) \<and>
      (\<forall>r \<in> set (gridsH h (o_board (objsH h c))). n \<le> r) \<and>
      distinct (gridsH h (o_board (objsH h c))))"

text \<open>The store \<open>h'\<close> arises from \<open>h\<close> by allocation and by writes above the old allocation pointer.\<close>

definition ext :: "Heap \<Rightarrow> Heap \<Rightarrow> bool" where
  "ext h h' = (nextH h \<le> nextH h' \<and> sameBelow (nextH h) h h')"

text \<open>A store holding one 3-by-3 board object at address 5, after four moves.\<close>

definition exampleHeap :: Heap where
  "exampleHeap =
     \<lparr>objsH = (\<lambda>a. \<lparr>o_size = 3, o_winLength = 3, o_board = 3, o_moveHistory = 4,
                     o_currentPlayer = ''O''\<rparr>),
      gridsH = (\<lambda>a. [0, 1, 2]),
      rowsH = (\<lambda>a. if a = 0 then [''X'', ''X'', ''O'']
                    else if a = 1 then [EMPTY, ''O'', EMPTY]
                    else [EMPTY, EMPTY, EMPTY]),
      histsH = (\<lambda>a. [\<lparr>row = 0, col = 0, player = ''X''\<rparr>, \<lparr>row = 1, col = 1, player = ''O''\<rparr>,
                      \<lparr>row = 0, col = 1, player = ''X''\<rparr>, \<lparr>row = 0, col = 2, player = ''O''\<rparr>]),
      nextH = 6\<rparr>"

section \<open>Properties of the board\<close>

lemma wf_newBoard: "wf (newBoard n w)"
  by (simp add: wf_def newBoard_def resetBoard_def list_all_iff)

lemma setCell_length [simp]: "length (setCell g r c v) = length g"
  by (simp add: setCell_def)

lemma setCell_row_length [simp]: "length (setCell g r c v ! i) = length (g ! i)"
  by (cases "r < length g") (auto simp: setCell_def nth_list_update list_update_beyond)

lemma setCell_nth:
  "i < length g \<Longrightarrow> j < length (g ! i) \<Longrightarrow>
   setCell g r c v ! i ! j = (if i = r \<and> j = c then v else g ! i ! j)"
  by (cases "i = r"; cases "j = c") (simp_all add: setCell_def)

lemma setCell_same:
  "g ! r ! c = v \<Longrightarrow> setCell g r c v = g"
  unfolding setCell_def by (metis list_update_id)

lemma setCell_undo:
  "r < length g \<Longrightarrow> g ! r ! c = v \<Longrightarrow> setCell (setCell g r c p) r c v = g"
  unfolding setCell_def by (simp, metis list_update_id)

lemma wf_setCell: "wf b \<Longrightarrow> wf (b\<lparr>board := setCell (board b) r c v\<rparr>)"
  by (auto simp: wf_def list_all_length)

text \<open>
  C7. Restoring any board object from the record produced by \<open>serialize\<close> gives a state
  equal to the serialized one in all five fields.
\<close>

theorem serialize_deserialize_roundtrip:
  "deserialize t (serialize b) = b"
  by (simp add: deserialize_def serialize_def)

lemma checkWin_iff:
  "checkWin b p \<longleftrightarrow>
     (\<exists>r<sizeB b. \<exists>c<Suc (sizeB b) - winLength b. \<forall>k<winLength b. board b ! r ! (c + k) = p) \<or>
     (\<exists>c<sizeB b. \<exists>r<Suc (sizeB b) - winLength b. \<forall>k<winLength b. board b ! (r + k) ! c = p) \<or>
     (\<exists>r<Suc (sizeB b) - winLength b. \<exists>c<Suc (sizeB b) - winLength b.
         \<forall>k<winLength b. board b ! (r + k) ! (c + k) = p) \<or>
     (\<exists>r<Suc (sizeB b) - winLength b. \<exists>c. int (winLength b) - 1 \<le> c \<and> c \<le> int (sizeB b) - 1 \<and>
         (\<forall>k<winLength b. board b ! (r + k) ! nat (c - int k) = p))"
  unfolding checkWin_def list_ex_iff list_all_iff
  by (simp add: Bex_def Ball_def)

lemma run_horizontal:
  assumes "1 \<le> winLength b" "winLength b \<le> sizeB b"
  shows "(\<exists>r c. runFrom b p r c 0 1) \<longleftrightarrow>
         (\<exists>r<sizeB b. \<exists>c<Suc (sizeB b) - winLength b. \<forall>k<winLength b. board b ! r ! (c + k) = p)"
proof
  assume "\<exists>r c. runFrom b p r c 0 1"
  then obtain r c where rc: "runFrom b p r c 0 1" by blast
  have z: "0 < winLength b" and l: "winLength b - 1 < winLength b" using assms by auto
  from rc z have r0: "0 \<le> r" "r < int (sizeB b)" "0 \<le> c" unfolding runFrom_def by force+
  from rc l have "c + int (winLength b - 1) < int (sizeB b)" unfolding runFrom_def by force
  then have c1: "nat c < Suc (sizeB b) - winLength b" using r0 assms by linarith
  have "\<forall>k<winLength b. board b ! nat r ! (nat c + k) = p"
  proof (intro allI impI)
    fix k assume "k < winLength b"
    with rc have "board b ! nat (r + int k * 0) ! nat (c + int k * 1) = p"
      unfolding runFrom_def by blast
    moreover have "nat (c + int k * 1) = nat c + k" using r0 by (simp add: nat_add_distrib)
    ultimately show "board b ! nat r ! (nat c + k) = p" by simp
  qed
  moreover have "nat r < sizeB b" using r0 by linarith
  ultimately show "\<exists>r<sizeB b. \<exists>c<Suc (sizeB b) - winLength b. \<forall>k<winLength b. board b ! r ! (c + k) = p"
    using c1 by blast
next
  assume "\<exists>r<sizeB b. \<exists>c<Suc (sizeB b) - winLength b. \<forall>k<winLength b. board b ! r ! (c + k) = p"
  then obtain r c where rc: "r < sizeB b" "c < Suc (sizeB b) - winLength b"
    "\<forall>k<winLength b. board b ! r ! (c + k) = p" by blast
  have "runFrom b p (int r) (int c) 0 1"
    unfolding runFrom_def using rc assms by (auto simp: nat_add_distrib)
  then show "\<exists>r c. runFrom b p r c 0 1" by blast
qed

lemma run_vertical:
  assumes "1 \<le> winLength b" "winLength b \<le> sizeB b"
  shows "(\<exists>r c. runFrom b p r c 1 0) \<longleftrightarrow>
         (\<exists>c<sizeB b. \<exists>r<Suc (sizeB b) - winLength b. \<forall>k<winLength b. board b ! (r + k) ! c = p)"
proof
  assume "\<exists>r c. runFrom b p r c 1 0"
  then obtain r c where rc: "runFrom b p r c 1 0" by blast
  have z: "0 < winLength b" and l: "winLength b - 1 < winLength b" using assms by auto
  from rc z have r0: "0 \<le> c" "c < int (sizeB b)" "0 \<le> r" unfolding runFrom_def by force+
  from rc l have "r + int (winLength b - 1) < int (sizeB b)" unfolding runFrom_def by force
  then have c1: "nat r < Suc (sizeB b) - winLength b" using r0 assms by linarith
  have "\<forall>k<winLength b. board b ! (nat r + k) ! nat c = p"
  proof (intro allI impI)
    fix k assume "k < winLength b"
    with rc have "board b ! nat (r + int k * 1) ! nat (c + int k * 0) = p"
      unfolding runFrom_def by blast
    moreover have "nat (r + int k * 1) = nat r + k" using r0 by (simp add: nat_add_distrib)
    ultimately show "board b ! (nat r + k) ! nat c = p" by simp
  qed
  moreover have "nat c < sizeB b" using r0 by linarith
  ultimately show "\<exists>c<sizeB b. \<exists>r<Suc (sizeB b) - winLength b. \<forall>k<winLength b. board b ! (r + k) ! c = p"
    using c1 by blast
next
  assume "\<exists>c<sizeB b. \<exists>r<Suc (sizeB b) - winLength b. \<forall>k<winLength b. board b ! (r + k) ! c = p"
  then obtain r c where rc: "c < sizeB b" "r < Suc (sizeB b) - winLength b"
    "\<forall>k<winLength b. board b ! (r + k) ! c = p" by blast
  have "runFrom b p (int r) (int c) 1 0"
    unfolding runFrom_def using rc assms by (auto simp: nat_add_distrib)
  then show "\<exists>r c. runFrom b p r c 1 0" by blast
qed

lemma run_diagonal:
  assumes "1 \<le> winLength b" "winLength b \<le> sizeB b"
  shows "(\<exists>r c. runFrom b p r c 1 1) \<longleftrightarrow>
         (\<exists>r<Suc (sizeB b) - winLength b. \<exists>c<Suc (sizeB b) - winLength b.
            \<forall>k<winLength b. board b ! (r + k) ! (c + k) = p)"
proof
  assume "\<exists>r c. runFrom b p r c 1 1"
  then obtain r c where rc: "runFrom b p r c 1 1" by blast
  have z: "0 < winLength b" and l: "winLength b - 1 < winLength b" using assms by auto
  from rc z have r0: "0 \<le> c" "0 \<le> r" unfolding runFrom_def by force+
  from rc l have "r + int (winLength b - 1) < int (sizeB b)" "c + int (winLength b - 1) < int (sizeB b)"
    unfolding runFrom_def by force+
  then have c1: "nat r < Suc (sizeB b) - winLength b" "nat c < Suc (sizeB b) - winLength b"
    using r0 assms by linarith+
  have "\<forall>k<winLength b. board b ! (nat r + k) ! (nat c + k) = p"
  proof (intro allI impI)
    fix k assume "k < winLength b"
    with rc have "board b ! nat (r + int k * 1) ! nat (c + int k * 1) = p"
      unfolding runFrom_def by blast
    moreover have "nat (r + int k * 1) = nat r + k" "nat (c + int k * 1) = nat c + k"
      using r0 by (simp_all add: nat_add_distrib)
    ultimately show "board b ! (nat r + k) ! (nat c + k) = p" by simp
  qed
  then show "\<exists>r<Suc (sizeB b) - winLength b. \<exists>c<Suc (sizeB b) - winLength b.
            \<forall>k<winLength b. board b ! (r + k) ! (c + k) = p"
    using c1 by blast
next
  assume "\<exists>r<Suc (sizeB b) - winLength b. \<exists>c<Suc (sizeB b) - winLength b.
            \<forall>k<winLength b. board b ! (r + k) ! (c + k) = p"
  then obtain r c where rc: "c < Suc (sizeB b) - winLength b" "r < Suc (sizeB b) - winLength b"
    "\<forall>k<winLength b. board b ! (r + k) ! (c + k) = p" by blast
  have "runFrom b p (int r) (int c) 1 1"
    unfolding runFrom_def using rc assms by (auto simp: nat_add_distrib)
  then show "\<exists>r c. runFrom b p r c 1 1" by blast
qed

lemma run_antidiagonal:
  assumes "1 \<le> winLength b" "winLength b \<le> sizeB b"
  shows "(\<exists>r c. runFrom b p r c 1 (- 1)) \<longleftrightarrow>
         (\<exists>r<Suc (sizeB b) - winLength b. \<exists>c. int (winLength b) - 1 \<le> c \<and> c \<le> int (sizeB b) - 1 \<and>
            (\<forall>k<winLength b. board b ! (r + k) ! nat (c - int k) = p))"
proof
  assume "\<exists>r c. runFrom b p r c 1 (- 1)"
  then obtain r c where rc: "runFrom b p r c 1 (- 1)" by blast
  have z: "0 < winLength b" and l: "winLength b - 1 < winLength b" using assms by auto
  from rc z have r0: "c < int (sizeB b)" "0 \<le> r" unfolding runFrom_def by force+
  from rc l have "r + int (winLength b - 1) * 1 < int (sizeB b)" "0 \<le> c + int (winLength b - 1) * (- 1)"
    unfolding runFrom_def by blast+
  then have c1: "nat r < Suc (sizeB b) - winLength b" "int (winLength b) - 1 \<le> c"
    using r0 assms by linarith+
  have "\<forall>k<winLength b. board b ! (nat r + k) ! nat (c - int k) = p"
  proof (intro allI impI)
    fix k assume "k < winLength b"
    with rc have "board b ! nat (r + int k * 1) ! nat (c + int k * (- 1)) = p"
      unfolding runFrom_def by blast
    moreover have "nat (r + int k * 1) = nat r + k"
      using r0 by (simp_all add: nat_add_distrib)
    ultimately show "board b ! (nat r + k) ! nat (c - int k) = p" by simp
  qed
  then show "\<exists>r<Suc (sizeB b) - winLength b. \<exists>c. int (winLength b) - 1 \<le> c \<and> c \<le> int (sizeB b) - 1 \<and>
            (\<forall>k<winLength b. board b ! (r + k) ! nat (c - int k) = p)"
    using c1 r0 by (intro exI[of _ "nat r"] conjI exI[of _ c]) auto
next
  assume "\<exists>r<Suc (sizeB b) - winLength b. \<exists>c. int (winLength b) - 1 \<le> c \<and> c \<le> int (sizeB b) - 1 \<and>
            (\<forall>k<winLength b. board b ! (r + k) ! nat (c - int k) = p)"
  then obtain r c where rc: "r < Suc (sizeB b) - winLength b" "int (winLength b) - 1 \<le> c"
    "c \<le> int (sizeB b) - 1"
    "\<forall>k<winLength b. board b ! (r + k) ! nat (c - int k) = p" by blast
  have "runFrom b p (int r) c 1 (- 1)"
    unfolding runFrom_def using rc assms by (auto simp: nat_add_distrib)
  then show "\<exists>r c. runFrom b p r c 1 (- 1)" by blast
qed

text \<open>
  C1. When \<open>1 \<le> winLength \<le> size\<close>, \<open>checkWin(player)\<close> is true exactly when some
  window of \<open>winLength\<close> cells that lies inside the grid and runs horizontally, vertically,
  down-right or down-left holds the player's marker in every cell.
\<close>

theorem checkWin_iff_hasRun:
  assumes "1 \<le> winLength b" and "winLength b \<le> sizeB b"
  shows "checkWin b p \<longleftrightarrow> hasRun b p"
proof -
  have "hasRun b p \<longleftrightarrow>
     (\<exists>r c. runFrom b p r c 0 1) \<or> (\<exists>r c. runFrom b p r c 1 0) \<or>
     (\<exists>r c. runFrom b p r c 1 1) \<or> (\<exists>r c. runFrom b p r c 1 (- 1))"
    unfolding hasRun_def by blast
  then show ?thesis
    unfolding checkWin_iff run_horizontal[OF assms] run_vertical[OF assms]
      run_diagonal[OF assms] run_antidiagonal[OF assms] by simp
qed

theorem checkWin_iff_hasRun_witness:
  "1 \<le> winLength (foldl applyOp (newBoard 3 3) [Place 0 2 ''O'', Place 1 1 ''O'', Place 2 0 ''O'']) \<and>
   winLength (foldl applyOp (newBoard 3 3) [Place 0 2 ''O'', Place 1 1 ''O'', Place 2 0 ''O''])
     \<le> sizeB (foldl applyOp (newBoard 3 3) [Place 0 2 ''O'', Place 1 1 ''O'', Place 2 0 ''O'']) \<and>
   checkWin (foldl applyOp (newBoard 3 3) [Place 0 2 ''O'', Place 1 1 ''O'', Place 2 0 ''O'']) ''O'' \<and>
   hasRun (foldl applyOp (newBoard 3 3) [Place 0 2 ''O'', Place 1 1 ''O'', Place 2 0 ''O'']) ''O'' \<and>
   \<not> hasRun (foldl applyOp (newBoard 3 3) [Place 0 2 ''O'', Place 1 1 ''O'']) ''O''"
proof -
  let ?b = "foldl applyOp (newBoard 3 3) [Place 0 2 ''O'', Place 1 1 ''O'', Place 2 0 ''O'']"
  let ?c = "foldl applyOp (newBoard 3 3) [Place 0 2 ''O'', Place 1 1 ''O'']"
  have b1: "1 \<le> winLength ?b" and b2: "winLength ?b \<le> sizeB ?b" by code_simp+
  have c1: "1 \<le> winLength ?c" and c2: "winLength ?c \<le> sizeB ?c" by code_simp+
  have wb: "checkWin ?b ''O''" by code_simp
  have wc: "\<not> checkWin ?c ''O''" by code_simp
  from checkWin_iff_hasRun[OF b1 b2, of "''O''"] wb have "hasRun ?b ''O''" by simp
  moreover from checkWin_iff_hasRun[OF c1 c2, of "''O''"] wc have "\<not> hasRun ?c ''O''" by simp
  ultimately show ?thesis using b1 b2 wb by blast
qed

text \<open>
  C2. On a well-formed board and for any integer coordinates and any marker:
  \<open>placeMarker\<close> returns false and leaves the whole state as it is when a coordinate is
  outside \<open>[0, size)\<close> or the target cell is not blank; otherwise it returns true, the
  addressed cell holds the marker afterwards, every other cell and the shape of the grid are
  as before, the move is appended to the history, and \<open>size\<close>, \<open>winLength\<close> and
  \<open>currentPlayer\<close> are untouched. Whenever the range check passes, the row index lies
  inside the outer array and the column index inside that row, so the read and the write of
  the method never leave the arrays: no call raises.
\<close>

theorem placeMarker_spec:
  assumes "wf b"
  shows "(r < 0 \<or> int (sizeB b) \<le> r \<or> c < 0 \<or> int (sizeB b) \<le> c \<or> board b ! nat r ! nat c \<noteq> EMPTY
            \<longrightarrow> placeMarker b r c p = (False, b))
       \<and> (0 \<le> r \<and> r < int (sizeB b) \<and> 0 \<le> c \<and> c < int (sizeB b) \<and> board b ! nat r ! nat c = EMPTY
            \<longrightarrow> (\<exists>b'. placeMarker b r c p = (True, b') \<and> wf b' \<and>
                 (\<forall>i<sizeB b. \<forall>j<sizeB b.
                    board b' ! i ! j = (if i = nat r \<and> j = nat c then p else board b ! i ! j)) \<and>
                 moveHistory b' = moveHistory b @ [\<lparr>row = nat r, col = nat c, player = p\<rparr>] \<and>
                 sizeB b' = sizeB b \<and> winLength b' = winLength b \<and> currentPlayer b' = currentPlayer b))
       \<and> (0 \<le> r \<and> r < int (sizeB b) \<and> 0 \<le> c \<and> c < int (sizeB b)
            \<longrightarrow> nat r < length (board b) \<and> nat c < length (board b ! nat r))"
proof (intro conjI impI)
  assume "r < 0 \<or> int (sizeB b) \<le> r \<or> c < 0 \<or> int (sizeB b) \<le> c \<or> board b ! nat r ! nat c \<noteq> EMPTY"
  then show "placeMarker b r c p = (False, b)"
    by (auto simp: placeMarker_def)
next
  assume a: "0 \<le> r \<and> r < int (sizeB b) \<and> 0 \<le> c \<and> c < int (sizeB b) \<and> board b ! nat r ! nat c = EMPTY"
  let ?b' = "b\<lparr>board := setCell (board b) (nat r) (nat c) p,
              moveHistory := moveHistory b @ [\<lparr>row = nat r, col = nat c, player = p\<rparr>]\<rparr>"
  have 1: "placeMarker b r c p = (True, ?b')" using a by (simp add: placeMarker_def)
  have 2: "wf ?b'" using assms by (auto simp: wf_def list_all_length)
  have 3: "\<forall>i<sizeB b. \<forall>j<sizeB b.
             board ?b' ! i ! j = (if i = nat r \<and> j = nat c then p else board b ! i ! j)"
    using assms by (auto simp: wf_def list_all_length setCell_nth)
  show "\<exists>b'. placeMarker b r c p = (True, b') \<and> wf b' \<and>
                 (\<forall>i<sizeB b. \<forall>j<sizeB b.
                    board b' ! i ! j = (if i = nat r \<and> j = nat c then p else board b ! i ! j)) \<and>
                 moveHistory b' = moveHistory b @ [\<lparr>row = nat r, col = nat c, player = p\<rparr>] \<and>
                 sizeB b' = sizeB b \<and> winLength b' = winLength b \<and> currentPlayer b' = currentPlayer b"
    using 1 2 3 by (intro exI[of _ ?b']) simp
next
  assume "0 \<le> r \<and> r < int (sizeB b) \<and> 0 \<le> c \<and> c < int (sizeB b)"
  then show "nat r < length (board b)" using assms by (auto simp: wf_def)
next
  assume "0 \<le> r \<and> r < int (sizeB b) \<and> 0 \<le> c \<and> c < int (sizeB b)"
  then show "nat c < length (board b ! nat r)" using assms by (auto simp: wf_def list_all_length)
qed


theorem placeMarker_spec_witness:
  "wf (newBoard 3 3) \<and>
   placeMarker (newBoard 3 3) 3 0 ''X'' = (False, newBoard 3 3) \<and>
   (\<exists>b'. placeMarker (newBoard 3 3) 1 2 ''X'' = (True, b') \<and> wf b' \<and>
      (\<forall>i<3. \<forall>j<3. board b' ! i ! j =
          (if i = 1 \<and> j = 2 then ''X'' else board (newBoard 3 3) ! i ! j)) \<and>
      moveHistory b' = [] @ [\<lparr>row = 1, col = 2, player = ''X''\<rparr>])"
proof -
  have w: "wf (newBoard 3 3)" by code_simp
  have s: "sizeB (newBoard 3 3) = 3" "moveHistory (newBoard 3 3) = []" "nat (1::int) = 1"
    "nat (2::int) = 2"
    by (simp_all add: newBoard_def resetBoard_def)
  have o: "(3::int) < 0 \<or> int 3 \<le> 3 \<or> (0::int) < 0 \<or> int 3 \<le> 0 \<or>
           board (newBoard 3 3) ! nat 3 ! nat 0 \<noteq> EMPTY"
    by simp
  have e: "0 \<le> (1::int) \<and> (1::int) < int 3 \<and> 0 \<le> (2::int) \<and> (2::int) < int 3 \<and>
           board (newBoard 3 3) ! 1 ! 2 = EMPTY"
    by code_simp
  have 1: "placeMarker (newBoard 3 3) 3 0 ''X'' = (False, newBoard 3 3)"
    using placeMarker_spec[OF w, of 3 0 "''X''", unfolded s] o by blast
  have 2: "\<exists>b'. placeMarker (newBoard 3 3) 1 2 ''X'' = (True, b') \<and> wf b' \<and>
      (\<forall>i<3. \<forall>j<3. board b' ! i ! j =
          (if i = 1 \<and> j = 2 then ''X'' else board (newBoard 3 3) ! i ! j)) \<and>
      moveHistory b' = [] @ [\<lparr>row = 1, col = 2, player = ''X''\<rparr>]"
    using placeMarker_spec[OF w, of 1 2 "''X''", unfolded s] e by blast
  show ?thesis using w 1 2 by blast
qed

lemma undo_place:
  assumes "wf b" "placeMarker b r c p = (True, b')"
  shows "undoMove b' = (Some \<lparr>row = nat r, col = nat c, player = p\<rparr>, b)"
proof -
  have rng: "0 \<le> r" "r < int (sizeB b)" "0 \<le> c" "c < int (sizeB b)" and e: "board b ! nat r ! nat c = EMPTY"
    using assms(2) by (auto simp: placeMarker_def split: if_splits)
  have b': "b' = b\<lparr>board := setCell (board b) (nat r) (nat c) p,
              moveHistory := moveHistory b @ [\<lparr>row = nat r, col = nat c, player = p\<rparr>]\<rparr>"
    using assms(2) rng e by (simp add: placeMarker_def)
  have "nat r < length (board b)" using assms(1) rng by (simp add: wf_def)
  then have "setCell (setCell (board b) (nat r) (nat c) p) (nat r) (nat c) EMPTY = board b"
    using e by (rule setCell_undo)
  then show ?thesis by (simp add: b' undoMove_def)
qed

lemma wf_place: "wf b \<Longrightarrow> wf (snd (placeMarker b r c p))"
  by (auto simp: placeMarker_def wf_def list_all_length)

lemma undoTimes_snoc:
  "undoTimes (Suc k) b =
     (case undoTimes k b of (ms, b1) \<Rightarrow> (case undoMove b1 of (m, b2) \<Rightarrow> (ms @ [m], b2)))"
proof (induction k arbitrary: b)
  case 0
  show ?case by (simp split: prod.splits)
next
  case (Suc k)
  obtain m b' where u: "undoMove b = (m, b')" by force
  have "undoTimes (Suc (Suc k)) b = (case undoTimes (Suc k) b' of (ms, b'') \<Rightarrow> (m # ms, b''))"
    using u by simp
  also have "\<dots> = (case (case undoTimes k b' of (ms, b1) \<Rightarrow>
                      (case undoMove b1 of (m', b2) \<Rightarrow> (ms @ [m'], b2))) of
                    (ms, b'') \<Rightarrow> (m # ms, b''))"
    by (simp only: Suc.IH)
  also have "\<dots> = (case undoTimes (Suc k) b of (ms, b1) \<Rightarrow>
                      (case undoMove b1 of (m', b2) \<Rightarrow> (ms @ [m'], b2)))"
    using u by (simp split: prod.splits)
  finally show ?case .
qed

lemma placeAll_undoTimes:
  "wf b \<Longrightarrow> placeAll b ms = Some b' \<Longrightarrow>
   undoTimes (length ms) b' = (map (\<lambda>t. Some (asMove t)) (rev ms), b)"
proof (induction ms arbitrary: b)
  case Nil
  then show ?case by simp
next
  case (Cons t ms)
  obtain r c p where t: "t = (r, c, p)" by (cases t) auto
  obtain ok b1 where pm: "placeMarker b r c p = (ok, b1)" by (cases "placeMarker b r c p") auto
  from Cons.prems(2) t pm have ok: "ok" and rest: "placeAll b1 ms = Some b'"
    by (auto split: if_splits bool.splits)
  have "wf b1" using wf_place[OF Cons.prems(1), of r c p] pm by simp
  from Cons.IH[OF this rest] have ih: "undoTimes (length ms) b' = (map (\<lambda>t. Some (asMove t)) (rev ms), b1)" .
  have "undoMove b1 = (Some (asMove t), b)"
    using undo_place[OF Cons.prems(1)] pm ok t by (simp add: asMove_def)
  then show ?case
    by (simp only: length_Cons undoTimes_snoc ih) simp
qed

text \<open>
  C3. \<open>undoMove\<close> on an empty history returns \<open>null\<close> and changes nothing; after a
  successful \<open>placeMarker\<close> on a well-formed board it returns exactly that move and gives
  back the state before the placement. After \<open>k\<close> successful placements on a fresh board,
  \<open>k\<close> calls return the moves newest first and end in the fresh board, whose grid is all
  blank, and one more call returns \<open>null\<close>.
\<close>

theorem undoMove_spec:
  "(moveHistory b = [] \<longrightarrow> undoMove b = (None, b)) \<and>
   (wf b \<and> placeMarker b r c p = (True, b') \<longrightarrow>
      undoMove b' = (Some \<lparr>row = nat r, col = nat c, player = p\<rparr>, b)) \<and>
   (placeAll (newBoard n w) ms = Some b'' \<longrightarrow>
      undoTimes (length ms) b'' = (map (\<lambda>t. Some (asMove t)) (rev ms), newBoard n w) \<and>
      board (newBoard n w) = replicate n (replicate n EMPTY) \<and>
      undoMove (newBoard n w) = (None, newBoard n w))"
proof (intro conjI impI)
  assume "moveHistory b = []"
  then show "undoMove b = (None, b)" by (simp add: undoMove_def)
next
  assume "wf b \<and> placeMarker b r c p = (True, b')"
  then show "undoMove b' = (Some \<lparr>row = nat r, col = nat c, player = p\<rparr>, b)"
    using undo_place by blast
next
  assume "placeAll (newBoard n w) ms = Some b''"
  then show "undoTimes (length ms) b'' = (map (\<lambda>t. Some (asMove t)) (rev ms), newBoard n w)"
    using placeAll_undoTimes[OF wf_newBoard] by blast
next
  show "board (newBoard n w) = replicate n (replicate n EMPTY)"
    by (simp add: newBoard_def resetBoard_def)
next
  show "undoMove (newBoard n w) = (None, newBoard n w)"
    by (simp add: undoMove_def newBoard_def resetBoard_def)
qed

theorem undoMove_spec_witness:
  "wf (newBoard 3 3) \<and>
   placeMarker (newBoard 3 3) 1 1 ''O'' = (True, foldl applyOp (newBoard 3 3) [Place 1 1 ''O'']) \<and>
   undoMove (foldl applyOp (newBoard 3 3) [Place 1 1 ''O'']) =
     (Some \<lparr>row = 1, col = 1, player = ''O''\<rparr>, newBoard 3 3) \<and>
   placeAll (newBoard 3 3) [(1, 1, ''O''), (0, 2, ''X'')] =
     Some (foldl applyOp (newBoard 3 3) [Place 1 1 ''O'', Place 0 2 ''X'']) \<and>
   undoTimes 2 (foldl applyOp (newBoard 3 3) [Place 1 1 ''O'', Place 0 2 ''X'']) =
     ([Some \<lparr>row = 0, col = 2, player = ''X''\<rparr>, Some \<lparr>row = 1, col = 1, player = ''O''\<rparr>],
      newBoard 3 3) \<and>
   undoMove (newBoard 3 3) = (None, newBoard 3 3)"
proof -
  let ?b1 = "foldl applyOp (newBoard 3 3) [Place 1 1 ''O'']"
  let ?ms = "[(1, 1, ''O''), (0, 2, ''X'')] :: (int \<times> int \<times> string) list"
  let ?b2 = "foldl applyOp (newBoard 3 3) [Place 1 1 ''O'', Place 0 2 ''X'']"
  have w: "wf (newBoard 3 3)" by code_simp
  have p1: "placeMarker (newBoard 3 3) 1 1 ''O'' = (True, ?b1)" by code_simp
  have p2: "placeAll (newBoard 3 3) ?ms = Some ?b2" by code_simp
  have n: "nat (1::int) = 1" "length ?ms = 2"
    "map (\<lambda>t. Some (asMove t)) (rev ?ms) =
       [Some \<lparr>row = 0, col = 2, player = ''X''\<rparr>, Some \<lparr>row = 1, col = 1, player = ''O''\<rparr>]"
    by (simp_all add: asMove_def)
  note u = undoMove_spec[of "newBoard 3 3" 1 1 "''O''" ?b1 3 3 ?ms ?b2, unfolded n]
  have a: "undoMove ?b1 = (Some \<lparr>row = 1, col = 1, player = ''O''\<rparr>, newBoard 3 3)"
    using u w p1 by blast
  have b: "undoTimes 2 ?b2 =
     ([Some \<lparr>row = 0, col = 2, player = ''X''\<rparr>, Some \<lparr>row = 1, col = 1, player = ''O''\<rparr>],
      newBoard 3 3)"
    using u p2 by blast
  have c: "undoMove (newBoard 3 3) = (None, newBoard 3 3)" using u p2 by blast
  show ?thesis using w p1 p2 a b c by blast
qed


lemma replay_snoc: "replay n (ms @ [m]) = setCell (replay n ms) (row m) (col m) (player m)"
  by (simp add: replay_def)

lemma replay_Nil: "replay n [] = replicate n (replicate n EMPTY)"
  by (simp add: replay_def)

lemma replay_shape: "length (replay n ms) = n \<and> (\<forall>i<n. length (replay n ms ! i) = n)"
  by (induction ms rule: rev_induct) (simp_all add: replay_snoc replay_Nil)

lemma replay_blank:
  "i < n \<Longrightarrow> j < n \<Longrightarrow> (i, j) \<notin> set (map (\<lambda>m. (row m, col m)) ms) \<Longrightarrow> replay n ms ! i ! j = EMPTY"
proof (induction ms rule: rev_induct)
  case Nil
  then show ?case by (simp add: replay_Nil)
next
  case (snoc m ms)
  then show ?case
    using replay_shape[of n ms] by (auto simp: replay_snoc setCell_nth)
qed

lemma filter_update_count:
  "c < length xs \<Longrightarrow> \<not> P (xs ! c) \<Longrightarrow> P v \<Longrightarrow>
   length (filter P (xs[c := v])) = Suc (length (filter P xs))"
proof (induction xs arbitrary: c)
  case Nil
  then show ?case by simp
next
  case (Cons x xs)
  then show ?case by (cases c) auto
qed

lemma nonEmptyCount_sum: "nonEmptyCount g = sum_list (map (\<lambda>r. length (filter (\<lambda>v. v \<noteq> EMPTY) r)) g)"
  unfolding nonEmptyCount_def by (induction g) auto

lemma sum_list_update_Suc:
  "r < length g \<Longrightarrow> f x = Suc (f (g ! r)) \<Longrightarrow>
   sum_list (map f (g[r := x])) = Suc (sum_list (map f g))"
proof (induction g arbitrary: r)
  case Nil
  then show ?case by simp
next
  case (Cons y g)
  then show ?case by (cases r) auto
qed

lemma nonEmptyCount_setCell:
  assumes "r < length g" "c < length (g ! r)" "g ! r ! c = EMPTY" "v \<noteq> EMPTY"
  shows "nonEmptyCount (setCell g r c v) = Suc (nonEmptyCount g)"
proof -
  have "length (filter (\<lambda>v. v \<noteq> EMPTY) ((g ! r)[c := v])) =
        Suc (length (filter (\<lambda>v. v \<noteq> EMPTY) (g ! r)))"
    using assms by (intro filter_update_count) auto
  then show ?thesis
    unfolding nonEmptyCount_sum setCell_def using assms(1) by (rule sum_list_update_Suc[rotated])
qed

lemma nonEmptyCount_blank: "nonEmptyCount (replicate n (replicate m EMPTY)) = 0"
  by (simp add: nonEmptyCount_sum sum_list_replicate)

lemma nonEmptyCount_replay:
  "distinct (map (\<lambda>m. (row m, col m)) ms) \<Longrightarrow>
   \<forall>m \<in> set ms. row m < n \<and> col m < n \<and> player m \<noteq> EMPTY \<Longrightarrow>
   nonEmptyCount (replay n ms) = length ms"
proof (induction ms rule: rev_induct)
  case Nil
  then show ?case by (simp add: replay_Nil nonEmptyCount_blank)
next
  case (snoc m ms)
  have rng: "row m < n" "col m < n" "player m \<noteq> EMPTY" using snoc.prems(2) by auto
  have "(row m, col m) \<notin> set (map (\<lambda>m. (row m, col m)) ms)" using snoc.prems(1) by auto
  then have e: "replay n ms ! row m ! col m = EMPTY" using rng by (intro replay_blank) auto
  have ih: "nonEmptyCount (replay n ms) = length ms" using snoc by auto
  show ?case
    using rng e ih replay_shape[of n ms] by (simp add: replay_snoc nonEmptyCount_setCell)
qed

lemma replay_occupied:
  "distinct (map (\<lambda>m. (row m, col m)) ms) \<Longrightarrow>
   \<forall>m \<in> set ms. row m < n \<and> col m < n \<and> player m \<noteq> EMPTY \<Longrightarrow>
   m \<in> set ms \<Longrightarrow> replay n ms ! row m ! col m \<noteq> EMPTY"
proof (induction ms rule: rev_induct)
  case Nil
  then show ?case by simp
next
  case (snoc x ms)
  show ?case
  proof (cases "(row m, col m) = (row x, col x)")
    case True
    then show ?thesis using snoc.prems(2) replay_shape[of n ms]
      by (simp add: replay_snoc setCell_nth)
  next
    case False
    then have "m \<in> set ms" using snoc.prems(3) by auto
    then have "replay n ms ! row m ! col m \<noteq> EMPTY" using snoc by auto
    moreover have "row m < n" "col m < n" using snoc.prems(2,3) by auto
    ultimately show ?thesis using False replay_shape[of n ms]
      by (auto simp: replay_snoc setCell_nth)
  qed
qed

lemma histInv_newBoard: "histInv (newBoard n w)"
  by (simp add: histInv_def newBoard_def resetBoard_def replay_Nil)

lemma histInv_place:
  assumes "histInv b" "p \<noteq> EMPTY"
  shows "histInv (snd (placeMarker b r c p))"
proof (cases "fst (placeMarker b r c p)")
  case False
  then have "snd (placeMarker b r c p) = b" by (auto simp: placeMarker_def split: if_splits)
  then show ?thesis using assms by simp
next
  case True
  then have rng: "0 \<le> r" "r < int (sizeB b)" "0 \<le> c" "c < int (sizeB b)"
    and e: "board b ! nat r ! nat c = EMPTY"
    by (auto simp: placeMarker_def split: if_splits)
  let ?m = "\<lparr>row = nat r, col = nat c, player = p\<rparr>"
  have b': "snd (placeMarker b r c p) =
      b\<lparr>board := setCell (board b) (nat r) (nat c) p, moveHistory := moveHistory b @ [?m]\<rparr>"
    using rng e by (simp add: placeMarker_def)
  have "(nat r, nat c) \<notin> set (map (\<lambda>m. (row m, col m)) (moveHistory b))"
  proof
    assume "(nat r, nat c) \<in> set (map (\<lambda>m. (row m, col m)) (moveHistory b))"
    then obtain m where m: "m \<in> set (moveHistory b)" "row m = nat r" "col m = nat c" by auto
    from replay_occupied[OF _ _ m(1), of "sizeB b"] assms(1)
    have "replay (sizeB b) (moveHistory b) ! row m ! col m \<noteq> EMPTY" by (simp add: histInv_def)
    then show False using e m assms(1) by (simp add: histInv_def)
  qed
  then show ?thesis
    using assms rng unfolding b' histInv_def by (auto simp: replay_snoc)
qed

lemma histInv_undo:
  assumes "histInv b"
  shows "histInv (snd (undoMove b))"
proof (cases "moveHistory b" rule: rev_cases)
  case Nil
  then show ?thesis using assms by (simp add: undoMove_def)
next
  case (snoc ms m)
  have d: "(row m, col m) \<notin> set (map (\<lambda>m. (row m, col m)) ms)"
    and rng: "row m < sizeB b" "col m < sizeB b"
    using assms snoc by (auto simp: histInv_def)
  then have e: "replay (sizeB b) ms ! row m ! col m = EMPTY" by (intro replay_blank) auto
  have "setCell (board b) (row m) (col m) EMPTY = replay (sizeB b) ms"
    using assms snoc e rng replay_shape[of "sizeB b" ms]
    by (simp add: histInv_def replay_snoc setCell_undo)
  then show ?thesis
    using assms snoc by (auto simp: undoMove_def histInv_def Let_def)
qed

lemma validMarker_not_EMPTY: "validMarker p \<Longrightarrow> p \<noteq> EMPTY"
  by (auto simp: validMarker_def EMPTY_def)

lemma histInv_applyOp:
  assumes "histInv b" "validOp op"
  shows "histInv (applyOp b op)"
proof (cases op)
  case (Place r c p)
  then show ?thesis
    using assms histInv_place[of b p r c] validMarker_not_EMPTY[of p] by simp
next
  case Undo
  then show ?thesis using assms histInv_undo[of b] by simp
next
  case Switch
  then show ?thesis using assms by (simp add: switchPlayer_def histInv_def)
qed

lemma histInv_foldl: "histInv b \<Longrightarrow> list_all validOp ops \<Longrightarrow> histInv (foldl applyOp b ops)"
  by (induction ops arbitrary: b) (auto simp: histInv_applyOp)

text \<open>
  C6. In every state reached from a freshly constructed board by any sequence of
  \<open>placeMarker\<close> calls with marker \<open>'O'\<close> or \<open>'X'\<close>, \<open>undoMove\<close> calls and
  \<open>switchPlayer\<close> calls, the history is as long as the number of non-blank cells, and
  replaying the history on a blank grid gives the current grid.
\<close>

theorem history_invariant:
  assumes "list_all validOp ops" and "b = foldl applyOp (newBoard n w) ops"
  shows "length (moveHistory b) = nonEmptyCount (board b) \<and>
         replay (sizeB b) (moveHistory b) = board b"
proof -
  have "histInv b" using assms histInv_foldl[OF histInv_newBoard] by simp
  then show ?thesis
    using nonEmptyCount_replay[of "moveHistory b" "sizeB b"] by (auto simp: histInv_def)
qed

theorem history_invariant_witness:
  "list_all validOp [Place 1 1 ''O'', Switch, Place 0 2 ''X'', Place 1 1 ''X'', Undo, Place 2 2 ''X''] \<and>
   length (moveHistory (foldl applyOp (newBoard 3 3)
      [Place 1 1 ''O'', Switch, Place 0 2 ''X'', Place 1 1 ''X'', Undo, Place 2 2 ''X''])) = 2 \<and>
   nonEmptyCount (board (foldl applyOp (newBoard 3 3)
      [Place 1 1 ''O'', Switch, Place 0 2 ''X'', Place 1 1 ''X'', Undo, Place 2 2 ''X''])) = 2 \<and>
   replay 3 (moveHistory (foldl applyOp (newBoard 3 3)
      [Place 1 1 ''O'', Switch, Place 0 2 ''X'', Place 1 1 ''X'', Undo, Place 2 2 ''X''])) =
   board (foldl applyOp (newBoard 3 3)
      [Place 1 1 ''O'', Switch, Place 0 2 ''X'', Place 1 1 ''X'', Undo, Place 2 2 ''X''])"
proof -
  let ?ops = "[Place 1 1 ''O'', Switch, Place 0 2 ''X'', Place 1 1 ''X'', Undo, Place 2 2 ''X'']"
  have v: "list_all validOp ?ops" by code_simp
  have l: "length (moveHistory (foldl applyOp (newBoard 3 3) ?ops)) = 2" by code_simp
  have s: "sizeB (foldl applyOp (newBoard 3 3) ?ops) = 3" by code_simp
  from history_invariant[OF v refl, of 3 3] l s show ?thesis using v by simp
qed
section \<open>Properties of the AI\<close>

lemma clone_id: "clone b = b"
  by (simp add: clone_def newBoard_def resetBoard_def)

lemma getEmptyCells_iff: "cell \<in> set (getEmptyCells b) \<longleftrightarrow> emptyIn b cell"
  by (cases cell) (auto simp: getEmptyCells_def emptyIn_def)

lemma place_empty:
  assumes "emptyIn b cell"
  shows "placeMarker b (int (row cell)) (int (col cell)) m =
     (True, b\<lparr>board := setCell (board b) (row cell) (col cell) m,
              moveHistory := moveHistory b @ [\<lparr>row = row cell, col = col cell, player = m\<rparr>]\<rparr>)"
  using assms by (simp add: placeMarker_def emptyIn_def)

lemma place_undo_empty:
  assumes "wf b" "emptyIn b cell"
  shows "snd (undoMove (snd (placeMarker b (int (row cell)) (int (col cell)) m))) = b"
  using undo_place[OF assms(1), of "int (row cell)" "int (col cell)" m] place_empty[OF assms(2), of m]
  by simp

lemma wf_placed: "wf b \<Longrightarrow> wf (snd (placeMarker b r c m))"
  by (rule wf_place)

lemma winScan_find:
  assumes "wf b" "\<forall>cell \<in> set cells. emptyIn b cell"
  shows "winScan m cells b =
     (case find (trialWins b m) cells of
        Some cell \<Rightarrow> (Some cell, snd (placeMarker b (int (row cell)) (int (col cell)) m))
      | None \<Rightarrow> (None, b))"
  using assms(2)
proof (induction cells)
  case Nil
  then show ?case by simp
next
  case (Cons cell cells)
  have "snd (undoMove (snd (placeMarker b (int (row cell)) (int (col cell)) m))) = b"
    using place_undo_empty[OF assms(1)] Cons.prems by simp
  then show ?case using Cons by (simp add: trialWins_def Let_def)
qed

lemma makeMediumMove_cascade:
  assumes "wf b"
  shows "makeMediumMove ai u b = cascade ai u b"
proof -
  have e: "\<forall>cell \<in> set (getEmptyCells b). emptyIn b cell" by (simp add: getEmptyCells_iff)
  show ?thesis
    unfolding makeMediumMove_def cascade_def clone_id Let_def corners_def
    by (simp add: winScan_find[OF assms e] split: option.splits)
qed

lemma find_in: "find P xs = Some x \<Longrightarrow> x \<in> set xs \<and> P x"
  by (induction xs) (auto split: if_splits)

lemma makeRandomMove_legal:
  assumes "0 \<le> u" "u < 1" "makeRandomMove u b = Some cell"
  shows "emptyIn b cell"
proof -
  let ?n = "length (getEmptyCells b)"
  have n: "?n \<noteq> 0" and c: "cell = getEmptyCells b ! nat \<lfloor>u * real ?n\<rfloor>"
    using assms(3) by (auto simp: makeRandomMove_def Let_def split: if_splits)
  have "u * real ?n < real ?n" using assms n by simp
  then have "\<lfloor>u * real ?n\<rfloor> < int ?n" by linarith
  moreover have "0 \<le> \<lfloor>u * real ?n\<rfloor>" using assms by simp
  ultimately have "nat \<lfloor>u * real ?n\<rfloor> < ?n" by linarith
  then have "cell \<in> set (getEmptyCells b)" using c by simp
  then show ?thesis by (simp add: getEmptyCells_iff)
qed

lemma makeRandomMove_None: "makeRandomMove u b = None \<longleftrightarrow> getEmptyCells b = []"
  by (simp add: makeRandomMove_def Let_def)

lemma corner_in:
  assumes "0 < n"
    "find P [\<lparr>row = 0, col = 0\<rparr>, \<lparr>row = 0, col = n - 1\<rparr>,
              \<lparr>row = n - 1, col = 0\<rparr>, \<lparr>row = n - 1, col = n - 1\<rparr>] = Some cell"
  shows "row cell < n \<and> col cell < n \<and> P cell"
proof -
  have m: "cell \<in> set [\<lparr>row = 0, col = 0\<rparr>, \<lparr>row = 0, col = n - 1\<rparr>,
              \<lparr>row = n - 1, col = 0\<rparr>, \<lparr>row = n - 1, col = n - 1\<rparr>]" and p: "P cell"
    using find_in[OF assms(2)] by blast+
  have "cell = \<lparr>row = 0, col = 0\<rparr> \<or> cell = \<lparr>row = 0, col = n - 1\<rparr> \<or>
        cell = \<lparr>row = n - 1, col = 0\<rparr> \<or> cell = \<lparr>row = n - 1, col = n - 1\<rparr>"
    using m by simp
  then have "row cell < n \<and> col cell < n"
  proof (elim disjE)
    assume "cell = \<lparr>row = 0, col = 0\<rparr>" then show ?thesis using assms(1) by simp
  next
    assume "cell = \<lparr>row = 0, col = n - 1\<rparr>" then show ?thesis using assms(1) by simp
  next
    assume "cell = \<lparr>row = n - 1, col = 0\<rparr>" then show ?thesis using assms(1) by simp
  next
    assume "cell = \<lparr>row = n - 1, col = n - 1\<rparr>" then show ?thesis using assms(1) by simp
  qed
  then show ?thesis using p by simp
qed

lemma corners_in:
  assumes "0 < sizeB b" "find P (corners b) = Some cell"
  shows "row cell < sizeB b \<and> col cell < sizeB b \<and> P cell"
  using corner_in[OF assms(1), of P cell] assms(2) unfolding corners_def by blast

lemma cascade_unfold:
  "cascade ai u b =
     (case find (trialWins b (marker ai)) (getEmptyCells b) of
        Some cell \<Rightarrow> Some cell
      | None \<Rightarrow>
     (case find (trialWins b (opponentMarker ai)) (getEmptyCells b) of
        Some cell \<Rightarrow> Some cell
      | None \<Rightarrow>
     (if board b ! (sizeB b div 2) ! (sizeB b div 2) = EMPTY
        then Some \<lparr>row = sizeB b div 2, col = sizeB b div 2\<rparr>
      else
     (case find (\<lambda>corner. board b ! row corner ! col corner = EMPTY) (corners b) of
        Some corner \<Rightarrow> Some corner
      | None \<Rightarrow> makeRandomMove u b))))"
  unfolding cascade_def corners_def ..

lemma cascade_Some:
  assumes "cascade ai u b = Some cell"
  shows "find (trialWins b (marker ai)) (getEmptyCells b) = Some cell \<or>
         find (trialWins b (opponentMarker ai)) (getEmptyCells b) = Some cell \<or>
         (board b ! (sizeB b div 2) ! (sizeB b div 2) = EMPTY \<and>
            cell = \<lparr>row = sizeB b div 2, col = sizeB b div 2\<rparr>) \<or>
         find (\<lambda>corner. board b ! row corner ! col corner = EMPTY) (corners b) = Some cell \<or>
         makeRandomMove u b = Some cell"
proof -
  define f1 where "f1 = find (trialWins b (marker ai)) (getEmptyCells b)"
  define f2 where "f2 = find (trialWins b (opponentMarker ai)) (getEmptyCells b)"
  define f3 where "f3 = find (\<lambda>corner. board b ! row corner ! col corner = EMPTY) (corners b)"
  define ce where "ce = (board b ! (sizeB b div 2) ! (sizeB b div 2) = EMPTY)"
  define rnd where "rnd = makeRandomMove u b"
  have c: "Some cell = (case f1 of Some cell \<Rightarrow> Some cell | None \<Rightarrow>
             (case f2 of Some cell \<Rightarrow> Some cell | None \<Rightarrow>
             (if ce then Some \<lparr>row = sizeB b div 2, col = sizeB b div 2\<rparr>
              else (case f3 of Some corner \<Rightarrow> Some corner | None \<Rightarrow> rnd))))"
    using assms unfolding cascade_unfold f1_def f2_def f3_def ce_def rnd_def by simp
  have "f1 = Some cell \<or> f2 = Some cell \<or>
        (ce \<and> cell = \<lparr>row = sizeB b div 2, col = sizeB b div 2\<rparr>) \<or>
        f3 = Some cell \<or> rnd = Some cell"
    using c by (cases f1; cases f2; cases f3; cases ce) simp_all
  then show ?thesis unfolding f1_def f2_def f3_def ce_def rnd_def .
qed

lemma cascade_None_random:
  assumes "cascade ai u b = None"
  shows "makeRandomMove u b = None"
proof -
  define f1 where "f1 = find (trialWins b (marker ai)) (getEmptyCells b)"
  define f2 where "f2 = find (trialWins b (opponentMarker ai)) (getEmptyCells b)"
  define f3 where "f3 = find (\<lambda>corner. board b ! row corner ! col corner = EMPTY) (corners b)"
  define ce where "ce = (board b ! (sizeB b div 2) ! (sizeB b div 2) = EMPTY)"
  define rnd where "rnd = makeRandomMove u b"
  have c: "None = (case f1 of Some cell \<Rightarrow> Some cell | None \<Rightarrow>
             (case f2 of Some cell \<Rightarrow> Some cell | None \<Rightarrow>
             (if ce then Some \<lparr>row = sizeB b div 2, col = sizeB b div 2\<rparr>
              else (case f3 of Some corner \<Rightarrow> Some corner | None \<Rightarrow> rnd))))"
    using assms unfolding cascade_unfold f1_def f2_def f3_def ce_def rnd_def by simp
  have "rnd = None"
    using c by (cases f1; cases f2; cases f3; cases ce) simp_all
  then show ?thesis unfolding rnd_def .
qed

lemma cascade_fallthrough:
  assumes "find (trialWins b (marker ai)) (getEmptyCells b) = None"
    "find (trialWins b (opponentMarker ai)) (getEmptyCells b) = None"
    "board b ! (sizeB b div 2) ! (sizeB b div 2) \<noteq> EMPTY"
    "find (\<lambda>corner. board b ! row corner ! col corner = EMPTY) (corners b) = None"
  shows "cascade ai u b = makeRandomMove u b"
  unfolding cascade_unfold by (simp only: assms option.case if_False)

lemma cascade_legal:
  assumes "0 < sizeB b" "0 \<le> u" "u < 1" "cascade ai u b = Some cell"
  shows "emptyIn b cell"
  using cascade_Some[OF assms(4)]
proof (elim disjE conjE)
  assume own: "find (trialWins b (marker ai)) (getEmptyCells b) = Some cell"
  from find_in[OF own] show ?thesis by (simp add: getEmptyCells_iff)
next
  assume opp: "find (trialWins b (opponentMarker ai)) (getEmptyCells b) = Some cell"
  from find_in[OF opp] show ?thesis by (simp add: getEmptyCells_iff)
next
  assume "board b ! (sizeB b div 2) ! (sizeB b div 2) = EMPTY"
      "cell = \<lparr>row = sizeB b div 2, col = sizeB b div 2\<rparr>"
  then show ?thesis using assms(1) by (simp add: emptyIn_def)
next
  assume corner: "find (\<lambda>corner. board b ! row corner ! col corner = EMPTY) (corners b) = Some cell"
  from corners_in[OF assms(1) corner] show ?thesis by (simp add: emptyIn_def)
next
  assume random: "makeRandomMove u b = Some cell"
  from makeRandomMove_legal[OF assms(2,3) random] show ?thesis .
qed

lemma cascade_None:
  assumes "0 < sizeB b"
  shows "cascade ai u b = None \<longleftrightarrow> getEmptyCells b = []"
proof
  assume "cascade ai u b = None"
  from cascade_None_random[OF this] show "getEmptyCells b = []"
    by (simp add: makeRandomMove_None)
next
  assume e: "getEmptyCells b = []"
  have ne: "\<And>cell. \<not> emptyIn b cell" using e getEmptyCells_iff[of _ b] by simp
  have 1: "board b ! (sizeB b div 2) ! (sizeB b div 2) \<noteq> EMPTY"
    using ne[of "\<lparr>row = sizeB b div 2, col = sizeB b div 2\<rparr>"] assms by (simp add: emptyIn_def)
  have 2: "find (\<lambda>corner. board b ! row corner ! col corner = EMPTY) (corners b) = None"
  proof (cases "find (\<lambda>corner. board b ! row corner ! col corner = EMPTY) (corners b)")
    case None
    then show ?thesis .
  next
    case (Some cell)
    from corners_in[OF assms Some] have False using ne[of cell] by (simp add: emptyIn_def)
    then show ?thesis ..
  qed
  have "cascade ai u b = makeRandomMove u b"
    by (rule cascade_fallthrough) (simp_all add: e 1 2)
  then show "cascade ai u b = None" using e by (simp add: makeRandomMove_None)
qed

declare minimax.simps [simp del] minimaxNP.simps [simp del]
  minimaxZ.simps [simp del] minimaxNPZ.simps [simp del] bitLength.simps [simp del]

subsection \<open>The search restores the board\<close>

lemma minimax_restores:
  shows "wf b \<Longrightarrow> snd (minimax ai b depth isMaximizing alpha beta) = b"
    and "wf b \<Longrightarrow> \<forall>cell\<in>set cells. emptyIn b cell \<Longrightarrow>
           snd (maxLoop ai cells b depth alpha beta maxScore) = b"
    and "wf b \<Longrightarrow> \<forall>cell\<in>set cells. emptyIn b cell \<Longrightarrow>
           snd (minLoop ai cells b depth alpha beta minScore) = b"
proof (induction ai b depth isMaximizing alpha beta
         and ai cells b depth alpha beta maxScore
         and ai cells b depth alpha beta minScore
       rule: minimax_maxLoop_minLoop.induct)
  case (1 ai b depth isMaximizing alpha beta)
  then show ?case by (simp add: minimax.simps getEmptyCells_iff)
next
  case (2 ai b depth alpha beta maxScore)
  show ?case by simp
next
  case (3 ai cell cells b depth alpha beta maxScore)
  let ?b1 = "snd (placeMarker b (int (row cell)) (int (col cell)) (marker ai))"
  let ?res = "minimax ai ?b1 (Suc depth) False alpha beta"
  have e: "emptyIn b cell" using "3.prems" by simp
  have w1: "wf ?b1" by (rule wf_place[OF "3.prems"(1)])
  have r1: "snd ?res = ?b1" using "3.IH"(1)[OF refl w1] by simp
  have u: "snd (undoMove ?b1) = b" by (rule place_undo_empty[OF "3.prems"(1) e])
  show ?case
  proof (cases "jsLe beta (jsMax alpha (fst ?res))")
    case True
    then show ?thesis by (simp add: Let_def r1 u)
  next
    case False
    have "snd (maxLoop ai cells (snd (undoMove (snd ?res))) depth (jsMax alpha (fst ?res)) beta
                 (jsMax maxScore (fst ?res))) = snd (undoMove (snd ?res))"
    proof -
      have F: "\<not> jsLe beta (jsMax alpha (fst (minimax ai ?b1 (depth + 1) False alpha beta)))"
        using False by simp
      show ?thesis
        using "3.IH"(2)[OF refl refl refl refl refl F] "3.prems" by (simp add: r1 u)
    qed
    then show ?thesis using False by (simp add: Let_def r1 u)
  qed
next
  case (4 ai b depth alpha beta minScore)
  show ?case by simp
next
  case (5 ai cell cells b depth alpha beta minScore)
  let ?b1 = "snd (placeMarker b (int (row cell)) (int (col cell)) (opponentMarker ai))"
  let ?res = "minimax ai ?b1 (Suc depth) True alpha beta"
  have e: "emptyIn b cell" using "5.prems" by simp
  have w1: "wf ?b1" by (rule wf_place[OF "5.prems"(1)])
  have r1: "snd ?res = ?b1" using "5.IH"(1)[OF refl w1] by simp
  have u: "snd (undoMove ?b1) = b" by (rule place_undo_empty[OF "5.prems"(1) e])
  show ?case
  proof (cases "jsLe (jsMin beta (fst ?res)) alpha")
    case True
    then show ?thesis by (simp add: Let_def r1 u)
  next
    case False
    have "snd (minLoop ai cells (snd (undoMove (snd ?res))) depth alpha (jsMin beta (fst ?res))
                 (jsMin minScore (fst ?res))) = snd (undoMove (snd ?res))"
    proof -
      have F: "\<not> jsLe (jsMin beta (fst (minimax ai ?b1 (depth + 1) True alpha beta))) alpha"
        using False by simp
      show ?thesis
        using "5.IH"(2)[OF refl refl refl refl refl F] "5.prems" by (simp add: r1 u)
    qed
    then show ?thesis using False by (simp add: Let_def r1 u)
  qed
qed


subsection \<open>The search with scores in the integers\<close>

lemma minimaxZ_restores:
  shows "wf b \<Longrightarrow> snd (minimaxZ ai b depth isMaximizing alpha beta) = b"
    and "wf b \<Longrightarrow> \<forall>cell\<in>set cells. emptyIn b cell \<Longrightarrow>
           snd (maxLoopZ ai cells b depth alpha beta maxScore) = b"
    and "wf b \<Longrightarrow> \<forall>cell\<in>set cells. emptyIn b cell \<Longrightarrow>
           snd (minLoopZ ai cells b depth alpha beta minScore) = b"
proof (induction ai b depth isMaximizing alpha beta
         and ai cells b depth alpha beta maxScore
         and ai cells b depth alpha beta minScore
       rule: minimaxZ_maxLoopZ_minLoopZ.induct)
  case (1 ai b depth isMaximizing alpha beta)
  then show ?case by (simp add: minimaxZ.simps getEmptyCells_iff)
next
  case (2 ai b depth alpha beta maxScore)
  show ?case by simp
next
  case (3 ai cell cells b depth alpha beta maxScore)
  let ?b1 = "snd (placeMarker b (int (row cell)) (int (col cell)) (marker ai))"
  let ?res = "minimaxZ ai ?b1 (Suc depth) False alpha beta"
  have e: "emptyIn b cell" using "3.prems" by simp
  have w1: "wf ?b1" by (rule wf_place[OF "3.prems"(1)])
  have r1: "snd ?res = ?b1" using "3.IH"(1)[OF refl w1] by simp
  have u: "snd (undoMove ?b1) = b" by (rule place_undo_empty[OF "3.prems"(1) e])
  show ?case
  proof (cases "beta \<le> max alpha (fst ?res)")
    case True
    then show ?thesis by (simp add: Let_def r1 u)
  next
    case False
    have "snd (maxLoopZ ai cells (snd (undoMove (snd ?res))) depth (max alpha (fst ?res)) beta
                 (max maxScore (fst ?res))) = snd (undoMove (snd ?res))"
    proof -
      have F: "\<not> beta \<le> max alpha (fst (minimaxZ ai ?b1 (depth + 1) False alpha beta))"
        using False by simp
      show ?thesis
        using "3.IH"(2)[OF refl refl refl refl refl F] "3.prems" by (simp add: r1 u)
    qed
    then show ?thesis using False by (simp add: Let_def r1 u)
  qed
next
  case (4 ai b depth alpha beta minScore)
  show ?case by simp
next
  case (5 ai cell cells b depth alpha beta minScore)
  let ?b1 = "snd (placeMarker b (int (row cell)) (int (col cell)) (opponentMarker ai))"
  let ?res = "minimaxZ ai ?b1 (Suc depth) True alpha beta"
  have e: "emptyIn b cell" using "5.prems" by simp
  have w1: "wf ?b1" by (rule wf_place[OF "5.prems"(1)])
  have r1: "snd ?res = ?b1" using "5.IH"(1)[OF refl w1] by simp
  have u: "snd (undoMove ?b1) = b" by (rule place_undo_empty[OF "5.prems"(1) e])
  show ?case
  proof (cases "min beta (fst ?res) \<le> alpha")
    case True
    then show ?thesis by (simp add: Let_def r1 u)
  next
    case False
    have "snd (minLoopZ ai cells (snd (undoMove (snd ?res))) depth alpha (min beta (fst ?res))
                 (min minScore (fst ?res))) = snd (undoMove (snd ?res))"
    proof -
      have F: "\<not> min beta (fst (minimaxZ ai ?b1 (depth + 1) True alpha beta)) \<le> alpha"
        using False by simp
      show ?thesis
        using "5.IH"(2)[OF refl refl refl refl refl F] "5.prems" by (simp add: r1 u)
    qed
    then show ?thesis using False by (simp add: Let_def r1 u)
  qed
qed

lemma minimaxNPZ_restores:
  shows "wf b \<Longrightarrow> snd (minimaxNPZ ai b depth isMaximizing alpha beta) = b"
    and "wf b \<Longrightarrow> \<forall>cell\<in>set cells. emptyIn b cell \<Longrightarrow>
           snd (maxLoopNPZ ai cells b depth alpha beta maxScore) = b"
    and "wf b \<Longrightarrow> \<forall>cell\<in>set cells. emptyIn b cell \<Longrightarrow>
           snd (minLoopNPZ ai cells b depth alpha beta minScore) = b"
proof (induction ai b depth isMaximizing alpha beta
         and ai cells b depth alpha beta maxScore
         and ai cells b depth alpha beta minScore
       rule: minimaxNPZ_maxLoopNPZ_minLoopNPZ.induct)
  case (1 ai b depth isMaximizing alpha beta)
  then show ?case by (simp add: minimaxNPZ.simps getEmptyCells_iff)
next
  case (2 ai b depth alpha beta maxScore)
  show ?case by simp
next
  case (3 ai cell cells b depth alpha beta maxScore)
  let ?b1 = "snd (placeMarker b (int (row cell)) (int (col cell)) (marker ai))"
  let ?res = "minimaxNPZ ai ?b1 (Suc depth) False alpha beta"
  have e: "emptyIn b cell" using "3.prems" by simp
  have w1: "wf ?b1" by (rule wf_place[OF "3.prems"(1)])
  have r1: "snd ?res = ?b1" using "3.IH"(1)[OF refl w1] by simp
  have u: "snd (undoMove ?b1) = b" by (rule place_undo_empty[OF "3.prems"(1) e])
  have "snd (maxLoopNPZ ai cells (snd (undoMove (snd ?res))) depth (max alpha (fst ?res)) beta
               (max maxScore (fst ?res))) = snd (undoMove (snd ?res))"
    using "3.IH"(2)[OF refl refl refl refl refl] "3.prems" by (simp add: r1 u)
  then show ?case by (simp add: Let_def r1 u)
next
  case (4 ai b depth alpha beta minScore)
  show ?case by simp
next
  case (5 ai cell cells b depth alpha beta minScore)
  let ?b1 = "snd (placeMarker b (int (row cell)) (int (col cell)) (opponentMarker ai))"
  let ?res = "minimaxNPZ ai ?b1 (Suc depth) True alpha beta"
  have e: "emptyIn b cell" using "5.prems" by simp
  have w1: "wf ?b1" by (rule wf_place[OF "5.prems"(1)])
  have r1: "snd ?res = ?b1" using "5.IH"(1)[OF refl w1] by simp
  have u: "snd (undoMove ?b1) = b" by (rule place_undo_empty[OF "5.prems"(1) e])
  have "snd (minLoopNPZ ai cells (snd (undoMove (snd ?res))) depth alpha (min beta (fst ?res))
               (min minScore (fst ?res))) = snd (undoMove (snd ?res))"
    using "5.IH"(2)[OF refl refl refl refl refl] "5.prems" by (simp add: r1 u)
  then show ?case by (simp add: Let_def r1 u)
qed

text \<open>Without pruning the window is never read.\<close>

lemma minimaxNPZ_window:
  shows "minimaxNPZ ai b depth isMaximizing alpha beta = minimaxNPZ ai b depth isMaximizing alpha' beta'"
    and "maxLoopNPZ ai cells b depth alpha beta maxScore = maxLoopNPZ ai cells b depth alpha' beta' maxScore"
    and "minLoopNPZ ai cells b depth alpha beta minScore = minLoopNPZ ai cells b depth alpha' beta' minScore"
proof (induction ai b depth isMaximizing alpha beta
         and ai cells b depth alpha beta maxScore
         and ai cells b depth alpha beta minScore
       arbitrary: alpha' beta' and alpha' beta' and alpha' beta'
       rule: minimaxNPZ_maxLoopNPZ_minLoopNPZ.induct)
  case (1 ai b depth isMaximizing alpha beta)
  show ?case
    using "1.IH"(1)[of alpha' beta'] "1.IH"(2)[of alpha' beta']
    by (simp add: minimaxNPZ.simps[of ai b depth isMaximizing])
next
  case (2 ai b depth alpha beta maxScore)
  show ?case by simp
next
  case (3 ai cell cells b depth alpha beta maxScore)
  let ?b1 = "snd (placeMarker b (int (row cell)) (int (col cell)) (marker ai))"
  have r: "minimaxNPZ ai ?b1 (Suc depth) False alpha beta = minimaxNPZ ai ?b1 (Suc depth) False alpha' beta'"
    using "3.IH"(1)[OF refl, of alpha' beta'] by simp
  show ?case
    using "3.IH"(2)[OF refl refl refl refl refl, of "max alpha' (fst (minimaxNPZ ai ?b1 (Suc depth) False alpha beta))" beta']
    by (simp add: Let_def r)
next
  case (4 ai b depth alpha beta minScore)
  show ?case by simp
next
  case (5 ai cell cells b depth alpha beta minScore)
  let ?b1 = "snd (placeMarker b (int (row cell)) (int (col cell)) (opponentMarker ai))"
  have r: "minimaxNPZ ai ?b1 (Suc depth) True alpha beta = minimaxNPZ ai ?b1 (Suc depth) True alpha' beta'"
    using "5.IH"(1)[OF refl, of alpha' beta'] by simp
  show ?case
    using "5.IH"(2)[OF refl refl refl refl refl, of alpha' "min beta' (fst (minimaxNPZ ai ?b1 (Suc depth) True alpha beta))"]
    by (simp add: Let_def r)
qed

lemma NegInf_le [simp]: "NegInf \<le> (s::score)"
  by simp

lemma le_PosInf [simp]: "(s::score) \<le> PosInf"
  by (cases s) simp_all

lemma max_NegInf [simp]: "max NegInf (s::score) = s"
  by (simp add: max_def)

lemma min_PosInf [simp]: "min PosInf (s::score) = s"
  by (cases s) (simp_all add: min_def)

lemma NegInf_less_PosInf: "NegInf < PosInf"
  by (simp add: less_score_def)

lemma bounds_refl: "bounds a b v v"
  by (simp add: bounds_def)

lemma bounds_full: "bounds NegInf PosInf v r \<Longrightarrow> r = v"
proof (cases r)
  case NegInf
  assume "bounds NegInf PosInf v r"
  then have "v \<le> NegInf" using NegInf by (simp add: bounds_def)
  then show ?thesis using NegInf by (cases v) simp_all
next
  case (Fin n)
  assume "bounds NegInf PosInf v r"
  then show ?thesis using Fin by (simp add: bounds_def less_score_def)
next
  case PosInf
  assume "bounds NegInf PosInf v r"
  then have "PosInf \<le> v" using PosInf by (simp add: bounds_def)
  then show ?thesis using PosInf by (cases v) simp_all
qed

lemma max_break:
  fixes m :: score
  assumes "m \<le> a" "a < b" "bounds a b v s" "b \<le> max a s"
  shows "bounds a b (max (max m v) w) (max m s)"
proof -
  have bs: "b \<le> s" using assms(2,4) by (simp add: max_def split: if_splits)
  then have "s \<le> v" using assms(3) by (simp add: bounds_def)
  moreover have "m \<le> s" using bs assms(1,2) by (meson less_imp_le order_trans)
  then have "max m s = s" by (simp add: max_def)
  ultimately show ?thesis using bs assms(2) by (auto simp: bounds_def max_def)
qed

lemma max_cont:
  fixes m :: score
  assumes "m \<le> a" "a < b" "bounds a b v s" "\<not> b \<le> max a s"
    "bounds (max a s) b (max (max m s) w) r"
  shows "bounds a b (max (max m v) w) r"
proof (cases "s \<le> a")
  case True
  then have v: "v \<le> s" using assms(3) by (simp add: bounds_def)
  have a': "max a s = a" using True by (simp add: max_def)
  have ms: "max m s \<le> a" using True assms(1) by simp
  have mv: "max m v \<le> a" using v True assms(1) by simp
  from assms(5) have B: "bounds a b (max (max m s) w) r" by (simp only: a')
  show ?thesis
    unfolding bounds_def
  proof (intro conjI impI)
    assume "r \<le> a"
    with B have "max (max m s) w \<le> r" by (simp add: bounds_def)
    then show "max (max m v) w \<le> r" using v by (auto simp: max_def split: if_splits)
  next
    assume h: "a < r \<and> r < b"
    with B have e: "r = max (max m s) w" by (simp add: bounds_def)
    then have "r = w" using h ms by (auto simp: max_def split: if_splits)
    then show "r = max (max m v) w" using h mv by (auto simp: max_def split: if_splits)
  next
    assume h: "b \<le> r"
    with B have "r \<le> max (max m s) w" by (simp add: bounds_def)
    then have "r \<le> w" using h ms assms(2) by (auto simp: max_def split: if_splits)
    then show "r \<le> max (max m v) w" by (simp add: le_max_iff_disj)
  qed
next
  case False
  then have as: "a < s" by simp
  have sb: "s < b" using assms(4) by (simp add: max_def split: if_splits)
  have sv: "s = v" using assms(3) as sb by (simp add: bounds_def)
  have a': "max a s = s" using as by (simp add: max_absorb2 less_imp_le)
  have "m \<le> s" using as assms(1) by (meson less_imp_le order_trans)
  then have m': "max m s = s" by (simp add: max_absorb2)
  from assms(5) have B: "bounds s b (max s w) r" by (simp only: a' m')
  have R: "max (max m v) w = max s w" using m' sv by simp
  show ?thesis
    unfolding R bounds_def
  proof (intro conjI impI)
    assume "r \<le> a"
    then have "r \<le> s" using as by simp
    with B show "max s w \<le> r" unfolding bounds_def by blast
  next
    assume h: "a < r \<and> r < b"
    show "r = max s w"
    proof (cases "s < r")
      case True
      with B h show ?thesis by (simp add: bounds_def)
    next
      case False
      then have "r \<le> s" by simp
      with B have "max s w \<le> r" unfolding bounds_def by blast
      then show ?thesis using \<open>r \<le> s\<close> by (auto simp: max_def split: if_splits)
    qed
  next
    assume "b \<le> r"
    with B show "r \<le> max s w" by (simp add: bounds_def)
  qed
qed

lemma min_break:
  fixes m :: score
  assumes "b \<le> m" "a < b" "bounds a b v s" "min b s \<le> a"
  shows "bounds a b (min (min m v) w) (min m s)"
proof -
  have sa: "s \<le> a" using assms(2,4) by (simp add: min_def split: if_splits)
  then have "v \<le> s" using assms(3) by (simp add: bounds_def)
  moreover have "s \<le> m" using sa assms(1,2) by (meson less_imp_le order_trans)
  then have "min m s = s" by (simp add: min_def)
  ultimately show ?thesis using sa assms(2) by (auto simp: bounds_def min_def)
qed

lemma min_cont:
  fixes m :: score
  assumes "b \<le> m" "a < b" "bounds a b v s" "\<not> min b s \<le> a"
    "bounds a (min b s) (min (min m s) w) r"
  shows "bounds a b (min (min m v) w) r"
proof (cases "b \<le> s")
  case True
  then have v: "s \<le> v" using assms(3) by (simp add: bounds_def)
  have b': "min b s = b" using True by (simp add: min_def)
  have ms: "b \<le> min m s" using True assms(1) by simp
  have mv: "b \<le> min m v" using v True assms(1) by simp
  from assms(5) have B: "bounds a b (min (min m s) w) r" by (simp only: b')
  show ?thesis
    unfolding bounds_def
  proof (intro conjI impI)
    assume h: "r \<le> a"
    with B have "min (min m s) w \<le> r" by (simp add: bounds_def)
    then have "w \<le> r" using h ms assms(2) by (auto simp: min_def split: if_splits)
    then show "min (min m v) w \<le> r" by (simp add: min_le_iff_disj)
  next
    assume h: "a < r \<and> r < b"
    with B have e: "r = min (min m s) w" by (simp add: bounds_def)
    then have "r = w" using h ms by (auto simp: min_def split: if_splits)
    then show "r = min (min m v) w" using h mv by (auto simp: min_def split: if_splits)
  next
    assume h: "b \<le> r"
    with B have "r \<le> min (min m s) w" by (simp add: bounds_def)
    then show "r \<le> min (min m v) w" using v by (auto simp: min_def split: if_splits)
  qed
next
  case False
  then have sb: "s < b" by simp
  have as: "a < s" using assms(4) by (simp add: min_def split: if_splits)
  have sv: "s = v" using assms(3) as sb by (simp add: bounds_def)
  have b': "min b s = s" using sb by (simp add: min_absorb2 less_imp_le)
  have "s \<le> m" using sb assms(1) by (meson less_imp_le order_trans)
  then have m': "min m s = s" by (simp add: min_absorb2)
  from assms(5) have B: "bounds a s (min s w) r" by (simp only: b' m')
  have R: "min (min m v) w = min s w" using m' sv by simp
  show ?thesis
    unfolding R bounds_def
  proof (intro conjI impI)
    assume "r \<le> a"
    with B show "min s w \<le> r" by (simp add: bounds_def)
  next
    assume h: "a < r \<and> r < b"
    show "r = min s w"
    proof (cases "r < s")
      case True
      with B h show ?thesis by (simp add: bounds_def)
    next
      case False
      then have "s \<le> r" by simp
      with B have "r \<le> min s w" unfolding bounds_def by blast
      then show ?thesis using \<open>s \<le> r\<close> by (auto simp: min_def split: if_splits)
    qed
  next
    assume "b \<le> r"
    then have "s \<le> r" using sb by simp
    with B show "r \<le> min s w" unfolding bounds_def by blast
  qed
qed

lemma maxLoopNPZ_Cons:
  assumes "wf b" "emptyIn b cell"
  shows "fst (maxLoopNPZ ai (cell # cells) b depth alpha beta m) =
         fst (maxLoopNPZ ai cells b depth alpha beta
               (max m (fst (minimaxNPZ ai (snd (placeMarker b (int (row cell)) (int (col cell)) (marker ai)))
                             (Suc depth) False alpha beta))))"
proof -
  let ?b1 = "snd (placeMarker b (int (row cell)) (int (col cell)) (marker ai))"
  let ?res = "minimaxNPZ ai ?b1 (Suc depth) False alpha beta"
  have r1: "snd ?res = ?b1" by (rule minimaxNPZ_restores(1)[OF wf_place[OF assms(1)]])
  have u: "snd (undoMove ?b1) = b" by (rule place_undo_empty[OF assms])
  have "maxLoopNPZ ai (cell # cells) b depth alpha beta m =
        maxLoopNPZ ai cells b depth (max alpha (fst ?res)) beta (max m (fst ?res))"
    by (simp add: Let_def r1 u)
  also have "\<dots> = maxLoopNPZ ai cells b depth alpha beta (max m (fst ?res))"
    by (rule minimaxNPZ_window(2))
  finally show ?thesis by simp
qed

lemma minLoopNPZ_Cons:
  assumes "wf b" "emptyIn b cell"
  shows "fst (minLoopNPZ ai (cell # cells) b depth alpha beta m) =
         fst (minLoopNPZ ai cells b depth alpha beta
               (min m (fst (minimaxNPZ ai (snd (placeMarker b (int (row cell)) (int (col cell)) (opponentMarker ai)))
                             (Suc depth) True alpha beta))))"
proof -
  let ?b1 = "snd (placeMarker b (int (row cell)) (int (col cell)) (opponentMarker ai))"
  let ?res = "minimaxNPZ ai ?b1 (Suc depth) True alpha beta"
  have r1: "snd ?res = ?b1" by (rule minimaxNPZ_restores(1)[OF wf_place[OF assms(1)]])
  have u: "snd (undoMove ?b1) = b" by (rule place_undo_empty[OF assms])
  have "minLoopNPZ ai (cell # cells) b depth alpha beta m =
        minLoopNPZ ai cells b depth alpha (min beta (fst ?res)) (min m (fst ?res))"
    by (simp add: Let_def r1 u)
  also have "\<dots> = minLoopNPZ ai cells b depth alpha beta (min m (fst ?res))"
    by (rule minimaxNPZ_window(3))
  finally show ?thesis by simp
qed

lemma maxLoopNPZ_max:
  assumes "wf b"
  shows "\<forall>cell\<in>set cells. emptyIn b cell \<Longrightarrow>
         fst (maxLoopNPZ ai cells b depth alpha beta m) =
         max m (fst (maxLoopNPZ ai cells b depth alpha beta NegInf))"
proof (induction cells arbitrary: m)
  case Nil
  show ?case by (simp add: max_absorb1)
next
  case (Cons cell cells)
  let ?v = "fst (minimaxNPZ ai (snd (placeMarker b (int (row cell)) (int (col cell)) (marker ai)))
                  (Suc depth) False alpha beta)"
  have e: "emptyIn b cell" and es: "\<forall>cell\<in>set cells. emptyIn b cell" using Cons.prems by simp_all
  have "fst (maxLoopNPZ ai (cell # cells) b depth alpha beta m) =
        max (max m ?v) (fst (maxLoopNPZ ai cells b depth alpha beta NegInf))"
    using maxLoopNPZ_Cons[OF assms e] Cons.IH[OF es, of "max m ?v"] by simp
  moreover have "fst (maxLoopNPZ ai (cell # cells) b depth alpha beta NegInf) =
        max ?v (fst (maxLoopNPZ ai cells b depth alpha beta NegInf))"
    using maxLoopNPZ_Cons[OF assms e, of ai cells depth alpha beta NegInf] Cons.IH[OF es, of ?v] by simp
  ultimately show ?case by (simp add: max.assoc)
qed

lemma minLoopNPZ_min:
  assumes "wf b"
  shows "\<forall>cell\<in>set cells. emptyIn b cell \<Longrightarrow>
         fst (minLoopNPZ ai cells b depth alpha beta m) =
         min m (fst (minLoopNPZ ai cells b depth alpha beta PosInf))"
proof (induction cells arbitrary: m)
  case Nil
  show ?case by (simp add: min_absorb1)
next
  case (Cons cell cells)
  let ?v = "fst (minimaxNPZ ai (snd (placeMarker b (int (row cell)) (int (col cell)) (opponentMarker ai)))
                  (Suc depth) True alpha beta)"
  have e: "emptyIn b cell" and es: "\<forall>cell\<in>set cells. emptyIn b cell" using Cons.prems by simp_all
  have "fst (minLoopNPZ ai (cell # cells) b depth alpha beta m) =
        min (min m ?v) (fst (minLoopNPZ ai cells b depth alpha beta PosInf))"
    using minLoopNPZ_Cons[OF assms e] Cons.IH[OF es, of "min m ?v"] by simp
  moreover have "fst (minLoopNPZ ai (cell # cells) b depth alpha beta PosInf) =
        min ?v (fst (minLoopNPZ ai cells b depth alpha beta PosInf))"
    using minLoopNPZ_Cons[OF assms e, of ai cells depth alpha beta PosInf] Cons.IH[OF es, of ?v] by simp
  ultimately show ?case by (simp add: min.assoc)
qed

lemma minimaxZ_bounds:
  shows "wf b \<Longrightarrow> alpha < beta \<Longrightarrow>
           bounds alpha beta (fst (minimaxNPZ ai b depth isMaximizing alpha beta))
                             (fst (minimaxZ ai b depth isMaximizing alpha beta))"
    and "wf b \<Longrightarrow> \<forall>cell\<in>set cells. emptyIn b cell \<Longrightarrow> alpha < beta \<Longrightarrow> maxScore \<le> alpha \<Longrightarrow>
           bounds alpha beta (fst (maxLoopNPZ ai cells b depth alpha beta maxScore))
                             (fst (maxLoopZ ai cells b depth alpha beta maxScore))"
    and "wf b \<Longrightarrow> \<forall>cell\<in>set cells. emptyIn b cell \<Longrightarrow> alpha < beta \<Longrightarrow> beta \<le> minScore \<Longrightarrow>
           bounds alpha beta (fst (minLoopNPZ ai cells b depth alpha beta minScore))
                             (fst (minLoopZ ai cells b depth alpha beta minScore))"
proof (induction ai b depth isMaximizing alpha beta
         and ai cells b depth alpha beta maxScore
         and ai cells b depth alpha beta minScore
       rule: minimaxZ_maxLoopZ_minLoopZ.induct)
  case (1 ai b depth isMaximizing alpha beta)
  show ?case
  proof (cases "checkWin b (marker ai) \<or> checkWin b (opponentMarker ai) \<or>
                checkDraw b \<or> maxDepth ai \<le> depth")
    case True
    then have "fst (minimaxNPZ ai b depth isMaximizing alpha beta) =
               fst (minimaxZ ai b depth isMaximizing alpha beta)"
      by (auto simp: minimaxZ.simps minimaxNPZ.simps)
    then show ?thesis by (simp add: bounds_refl)
  next
    case False
    then have c: "\<not> checkWin b (marker ai)" "\<not> checkWin b (opponentMarker ai)"
      "\<not> (checkDraw b \<or> maxDepth ai \<le> depth)" by simp_all
    have e: "\<forall>cell\<in>set (getEmptyCells b). emptyIn b cell" by (simp add: getEmptyCells_iff)
    show ?thesis
    proof (cases isMaximizing)
      case True
      from "1.IH"(1)[OF c True "1.prems"(1) e "1.prems"(2)] show ?thesis
        using c True by (simp add: minimaxZ.simps minimaxNPZ.simps)
    next
      case False
      from "1.IH"(2)[OF c False "1.prems"(1) e "1.prems"(2)] show ?thesis
        using c False by (simp add: minimaxZ.simps minimaxNPZ.simps)
    qed
  qed
next
  case (2 ai b depth alpha beta maxScore)
  show ?case by (simp add: bounds_refl)
next
  case (3 ai cell cells b depth alpha beta maxScore)
  let ?b1 = "snd (placeMarker b (int (row cell)) (int (col cell)) (marker ai))"
  let ?res = "minimaxZ ai ?b1 (Suc depth) False alpha beta"
  let ?v = "fst (minimaxNPZ ai ?b1 (Suc depth) False alpha beta)"
  let ?w = "fst (maxLoopNPZ ai cells b depth alpha beta NegInf)"
  have e: "emptyIn b cell" and es: "\<forall>cell\<in>set cells. emptyIn b cell" using "3.prems" by simp_all
  have w: "wf b" and ab: "alpha < beta" and ma: "maxScore \<le> alpha" using "3.prems" by simp_all
  have w1: "wf ?b1" by (rule wf_place[OF w])
  have r1: "snd ?res = ?b1" by (rule minimaxZ_restores(1)[OF w1])
  have u: "snd (undoMove ?b1) = b" by (rule place_undo_empty[OF w e])
  have B1: "bounds alpha beta ?v (fst ?res)" using "3.IH"(1)[OF refl w1 ab] by simp
  have R: "fst (maxLoopNPZ ai (cell # cells) b depth alpha beta maxScore) = max (max maxScore ?v) ?w"
    using maxLoopNPZ_Cons[OF w e] maxLoopNPZ_max[OF w es, of ai depth alpha beta "max maxScore ?v"] by simp
  show ?case
  proof (cases "beta \<le> max alpha (fst ?res)")
    case True
    then have "fst (maxLoopZ ai (cell # cells) b depth alpha beta maxScore) = max maxScore (fst ?res)"
      by (simp add: Let_def)
    then show ?thesis using max_break[OF ma ab B1 True] R by simp
  next
    case False
    have F: "\<not> beta \<le> max alpha (fst (minimaxZ ai ?b1 (depth + 1) False alpha beta))"
      using False by simp
    have ab': "max alpha (fst ?res) < beta" using False by (simp only: not_le)
    have ma': "max maxScore (fst ?res) \<le> max alpha (fst ?res)"
      using ma by (meson max.mono order_refl)
    have "bounds (max alpha (fst ?res)) beta
            (fst (maxLoopNPZ ai cells b depth (max alpha (fst ?res)) beta (max maxScore (fst ?res))))
            (fst (maxLoopZ ai cells b depth (max alpha (fst ?res)) beta (max maxScore (fst ?res))))"
      using "3.IH"(2)[OF refl refl refl refl refl F] w es ab' ma' by (simp add: r1 u)
    moreover have "fst (maxLoopNPZ ai cells b depth (max alpha (fst ?res)) beta (max maxScore (fst ?res))) =
            max (max maxScore (fst ?res)) ?w"
      using maxLoopNPZ_max[OF w es, of ai depth alpha beta "max maxScore (fst ?res)"]
        minimaxNPZ_window(2)[of ai cells b depth "max alpha (fst ?res)" beta _ alpha beta]
      by simp
    moreover have "fst (maxLoopZ ai (cell # cells) b depth alpha beta maxScore) =
            fst (maxLoopZ ai cells b depth (max alpha (fst ?res)) beta (max maxScore (fst ?res)))"
      using False by (simp add: Let_def r1 u)
    ultimately show ?thesis using max_cont[OF ma ab B1 False] R by simp
  qed
next
  case (4 ai b depth alpha beta minScore)
  show ?case by (simp add: bounds_refl)
next
  case (5 ai cell cells b depth alpha beta minScore)
  let ?b1 = "snd (placeMarker b (int (row cell)) (int (col cell)) (opponentMarker ai))"
  let ?res = "minimaxZ ai ?b1 (Suc depth) True alpha beta"
  let ?v = "fst (minimaxNPZ ai ?b1 (Suc depth) True alpha beta)"
  let ?w = "fst (minLoopNPZ ai cells b depth alpha beta PosInf)"
  have e: "emptyIn b cell" and es: "\<forall>cell\<in>set cells. emptyIn b cell" using "5.prems" by simp_all
  have w: "wf b" and ab: "alpha < beta" and ma: "beta \<le> minScore" using "5.prems" by simp_all
  have w1: "wf ?b1" by (rule wf_place[OF w])
  have r1: "snd ?res = ?b1" by (rule minimaxZ_restores(1)[OF w1])
  have u: "snd (undoMove ?b1) = b" by (rule place_undo_empty[OF w e])
  have B1: "bounds alpha beta ?v (fst ?res)" using "5.IH"(1)[OF refl w1 ab] by simp
  have R: "fst (minLoopNPZ ai (cell # cells) b depth alpha beta minScore) = min (min minScore ?v) ?w"
    using minLoopNPZ_Cons[OF w e] minLoopNPZ_min[OF w es, of ai depth alpha beta "min minScore ?v"] by simp
  show ?case
  proof (cases "min beta (fst ?res) \<le> alpha")
    case True
    then have "fst (minLoopZ ai (cell # cells) b depth alpha beta minScore) = min minScore (fst ?res)"
      by (simp add: Let_def)
    then show ?thesis using min_break[OF ma ab B1 True] R by simp
  next
    case False
    have F: "\<not> min beta (fst (minimaxZ ai ?b1 (depth + 1) True alpha beta)) \<le> alpha"
      using False by simp
    have ab': "alpha < min beta (fst ?res)" using False by (simp only: not_le)
    have ma': "min beta (fst ?res) \<le> min minScore (fst ?res)"
      using ma by (meson min.mono order_refl)
    have "bounds alpha (min beta (fst ?res))
            (fst (minLoopNPZ ai cells b depth alpha (min beta (fst ?res)) (min minScore (fst ?res))))
            (fst (minLoopZ ai cells b depth alpha (min beta (fst ?res)) (min minScore (fst ?res))))"
      using "5.IH"(2)[OF refl refl refl refl refl F] w es ab' ma' by (simp add: r1 u)
    moreover have "fst (minLoopNPZ ai cells b depth alpha (min beta (fst ?res)) (min minScore (fst ?res))) =
            min (min minScore (fst ?res)) ?w"
      using minLoopNPZ_min[OF w es, of ai depth alpha beta "min minScore (fst ?res)"]
        minimaxNPZ_window(3)[of ai cells b depth alpha "min beta (fst ?res)" _ alpha beta]
      by simp
    moreover have "fst (minLoopZ ai (cell # cells) b depth alpha beta minScore) =
            fst (minLoopZ ai cells b depth alpha (min beta (fst ?res)) (min minScore (fst ?res)))"
      using False by (simp add: Let_def r1 u)
    ultimately show ?thesis using min_cont[OF ma ab B1 False] R by simp
  qed
qed

lemma minimaxZ_exact:
  assumes "wf b"
  shows "minimaxZ ai b depth isMaximizing NegInf PosInf = minimaxNPZ ai b depth isMaximizing NegInf PosInf"
proof -
  have "fst (minimaxZ ai b depth isMaximizing NegInf PosInf) =
        fst (minimaxNPZ ai b depth isMaximizing NegInf PosInf)"
    by (rule bounds_full[OF minimaxZ_bounds(1)[OF assms NegInf_less_PosInf]])
  moreover have "snd (minimaxZ ai b depth isMaximizing NegInf PosInf) =
        snd (minimaxNPZ ai b depth isMaximizing NegInf PosInf)"
    using minimaxZ_restores(1)[OF assms] minimaxNPZ_restores(1)[OF assms] by simp
  ultimately show ?thesis by (rule prod_eqI)
qed

lemma bestLoopZ_eq:
  assumes "wf b"
  shows "\<forall>cell\<in>set cells. emptyIn b cell \<Longrightarrow>
         bestLoopZ ai cells b bestScore bestMove = bestLoopNPZ ai cells b bestScore bestMove"
proof (induction cells arbitrary: bestScore bestMove)
  case Nil
  show ?case by simp
next
  case (Cons cell cells)
  let ?b1 = "snd (placeMarker b (int (row cell)) (int (col cell)) (marker ai))"
  have e: "emptyIn b cell" and es: "\<forall>cell\<in>set cells. emptyIn b cell" using Cons.prems by simp_all
  have w1: "wf ?b1" by (rule wf_place[OF assms])
  have x: "minimaxZ ai ?b1 0 False NegInf PosInf = minimaxNPZ ai ?b1 0 False NegInf PosInf"
    by (rule minimaxZ_exact[OF w1])
  have r1: "snd (minimaxNPZ ai ?b1 0 False NegInf PosInf) = ?b1"
    by (rule minimaxNPZ_restores(1)[OF w1])
  have u: "snd (undoMove ?b1) = b" by (rule place_undo_empty[OF assms e])
  show ?case using Cons.IH[OF es] by (simp add: Let_def x r1 u)
qed

lemma isFin_Fin [simp]: "isFin (Fin n)"
  by (simp add: isFin_def)

lemma isFin_max: "isFin s \<Longrightarrow> m \<noteq> PosInf \<Longrightarrow> isFin (max m s)"
  by (cases m) (auto simp: isFin_def max_def)

lemma isFin_min: "isFin s \<Longrightarrow> m \<noteq> NegInf \<Longrightarrow> isFin (min m s)"
  by (cases m) (auto simp: isFin_def min_def)

lemma isFin_neq: "isFin s \<Longrightarrow> s \<noteq> PosInf \<and> s \<noteq> NegInf"
  by (auto simp: isFin_def)

lemma checkDraw_iff: "checkDraw b \<longleftrightarrow> getEmptyCells b = []"
  by (auto simp: checkDraw_def getEmptyCells_def list_ex_iff filter_empty_conv)

lemma minimaxZ_finite:
  shows "isFin (fst (minimaxZ ai b depth isMaximizing alpha beta))"
    and "maxScore \<noteq> PosInf \<Longrightarrow> isFin maxScore \<or> cells \<noteq> [] \<Longrightarrow>
           isFin (fst (maxLoopZ ai cells b depth alpha beta maxScore))"
    and "minScore \<noteq> NegInf \<Longrightarrow> isFin minScore \<or> cells \<noteq> [] \<Longrightarrow>
           isFin (fst (minLoopZ ai cells b depth alpha beta minScore))"
proof (induction ai b depth isMaximizing alpha beta
         and ai cells b depth alpha beta maxScore
         and ai cells b depth alpha beta minScore
       rule: minimaxZ_maxLoopZ_minLoopZ.induct)
  case (1 ai b depth isMaximizing alpha beta)
  show ?case
  proof (cases "checkWin b (marker ai) \<or> checkWin b (opponentMarker ai) \<or>
                checkDraw b \<or> maxDepth ai \<le> depth")
    case True
    then show ?thesis by (auto simp: minimaxZ.simps)
  next
    case False
    then have c: "\<not> checkWin b (marker ai)" "\<not> checkWin b (opponentMarker ai)"
      "\<not> (checkDraw b \<or> maxDepth ai \<le> depth)" by simp_all
    have ne: "getEmptyCells b \<noteq> []" using c(3) by (simp add: checkDraw_iff)
    show ?thesis
    proof (cases isMaximizing)
      case True
      from "1.IH"(1)[OF c True] ne show ?thesis
        using c True by (simp add: minimaxZ.simps)
    next
      case False
      from "1.IH"(2)[OF c False] ne show ?thesis
        using c False by (simp add: minimaxZ.simps)
    qed
  qed
next
  case (2 ai b depth alpha beta maxScore)
  then show ?case by simp
next
  case (3 ai cell cells b depth alpha beta maxScore)
  let ?b1 = "snd (placeMarker b (int (row cell)) (int (col cell)) (marker ai))"
  let ?res = "minimaxZ ai ?b1 (Suc depth) False alpha beta"
  have s: "isFin (fst ?res)" using "3.IH"(1)[OF refl] by simp
  have m': "isFin (max maxScore (fst ?res))" by (rule isFin_max[OF s "3.prems"(1)])
  show ?case
  proof (cases "beta \<le> max alpha (fst ?res)")
    case True
    then show ?thesis using m' by (simp add: Let_def)
  next
    case False
    have F: "\<not> beta \<le> max alpha (fst (minimaxZ ai ?b1 (depth + 1) False alpha beta))"
      using False by simp
    from "3.IH"(2)[OF refl refl refl refl refl F] m' isFin_neq[OF m']
    show ?thesis using False by (simp add: Let_def)
  qed
next
  case (4 ai b depth alpha beta minScore)
  then show ?case by simp
next
  case (5 ai cell cells b depth alpha beta minScore)
  let ?b1 = "snd (placeMarker b (int (row cell)) (int (col cell)) (opponentMarker ai))"
  let ?res = "minimaxZ ai ?b1 (Suc depth) True alpha beta"
  have s: "isFin (fst ?res)" using "5.IH"(1)[OF refl] by simp
  have m': "isFin (min minScore (fst ?res))" by (rule isFin_min[OF s "5.prems"(1)])
  show ?case
  proof (cases "min beta (fst ?res) \<le> alpha")
    case True
    then show ?thesis using m' by (simp add: Let_def)
  next
    case False
    have F: "\<not> min beta (fst (minimaxZ ai ?b1 (depth + 1) True alpha beta)) \<le> alpha"
      using False by simp
    from "5.IH"(2)[OF refl refl refl refl refl F] m' isFin_neq[OF m']
    show ?thesis using False by (simp add: Let_def)
  qed
qed

lemma bestLoopZ_in:
  "fst (bestLoopZ ai cells b bestScore bestMove) = bestMove \<or>
   (\<exists>cell\<in>set cells. fst (bestLoopZ ai cells b bestScore bestMove) = Some cell)"
proof (induction cells arbitrary: b bestScore bestMove)
  case Nil
  show ?case by simp
next
  case (Cons cell cells)
  let ?b1 = "snd (placeMarker b (int (row cell)) (int (col cell)) (marker ai))"
  let ?res = "minimaxZ ai ?b1 0 False NegInf PosInf"
  let ?b3 = "snd (undoMove (snd ?res))"
  show ?case
  proof (cases "fst ?res > bestScore")
    case True
    then have "bestLoopZ ai (cell # cells) b bestScore bestMove =
               bestLoopZ ai cells ?b3 (fst ?res) (Some cell)"
      by (simp add: Let_def)
    then show ?thesis using Cons.IH[of ?b3 "fst ?res" "Some cell"] by auto
  next
    case False
    then have "bestLoopZ ai (cell # cells) b bestScore bestMove =
               bestLoopZ ai cells ?b3 bestScore bestMove"
      by (simp add: Let_def)
    then show ?thesis using Cons.IH[of ?b3 bestScore bestMove] by auto
  qed
qed

lemma bestLoopZ_first:
  assumes "cells \<noteq> []"
  shows "\<exists>cell\<in>set cells. fst (bestLoopZ ai cells b NegInf None) = Some cell"
proof -
  obtain cell rest where c: "cells = cell # rest" using assms by (cases cells) auto
  let ?b1 = "snd (placeMarker b (int (row cell)) (int (col cell)) (marker ai))"
  let ?res = "minimaxZ ai ?b1 0 False NegInf PosInf"
  let ?b3 = "snd (undoMove (snd ?res))"
  obtain n where n: "fst ?res = Fin n" using minimaxZ_finite(1)[of ai ?b1 0 False NegInf PosInf]
    by (auto simp: isFin_def)
  then have "fst ?res > NegInf" by (simp add: less_score_def)
  then have "bestLoopZ ai cells b NegInf None = bestLoopZ ai rest ?b3 (fst ?res) (Some cell)"
    unfolding c by (simp add: Let_def)
  then show ?thesis using bestLoopZ_in[of ai rest ?b3 "fst ?res" "Some cell"] c by auto
qed
subsection \<open>Exact scores\<close>

text \<open>
  On a board with \<open>exactScores\<close> no sum of \<open>evaluateBoard\<close> rounds or overflows,
  so the search over doubles computes what the search over the integers computes.
\<close>

lemma toDouble_exact: "\<bar>x\<bar> < 9007199254740992 \<Longrightarrow> toDouble x = Num (Fin x)"
  by (simp add: toDouble_def)

lemma jsAdd_exact:
  "\<bar>a + b\<bar> < 9007199254740992 \<Longrightarrow> jsAdd (Num (Fin a)) (Num (Fin b)) = Num (Fin (a + b))"
  by (simp add: toDouble_def)

lemma foldl_jsAdd_exact:
  assumes "\<forall>v\<in>set vs. \<bar>v\<bar> \<le> M" and "\<bar>a\<bar> + int (length vs) * M < 9007199254740992"
  shows "foldl jsAdd (Num (Fin a)) (map (\<lambda>v. Num (Fin v)) vs) = Num (Fin (a + sum_list vs)) \<and>
         \<bar>a + sum_list vs\<bar> \<le> \<bar>a\<bar> + int (length vs) * M"
  using assms
proof (induction vs arbitrary: a)
  case Nil
  then show ?case by simp
next
  case (Cons v vs)
  have v: "\<bar>v\<bar> \<le> M" using Cons.prems(1) by simp
  have M: "0 \<le> M" using v by linarith
  have lm: "0 \<le> int (length vs) * M" using M by simp
  have b: "\<bar>a\<bar> + M + int (length vs) * M < 9007199254740992"
    using Cons.prems(2) by (simp add: algebra_simps)
  have av: "\<bar>a + v\<bar> \<le> \<bar>a\<bar> + M" using v by linarith
  have e: "jsAdd (Num (Fin a)) (Num (Fin v)) = Num (Fin (a + v))"
    by (rule jsAdd_exact) (use av b lm in linarith)
  have p2: "\<bar>a + v\<bar> + int (length vs) * M < 9007199254740992" using av b by linarith
  have p1: "\<forall>v\<in>set vs. \<bar>v\<bar> \<le> M" using Cons.prems(1) by simp
  from Cons.IH[OF p1 p2]
  have ih: "foldl jsAdd (Num (Fin (a + v))) (map (\<lambda>v. Num (Fin v)) vs) = Num (Fin (a + v + sum_list vs))"
    and ib: "\<bar>a + v + sum_list vs\<bar> \<le> \<bar>a + v\<bar> + int (length vs) * M" by simp_all
  have "\<bar>a + sum_list (v # vs)\<bar> \<le> \<bar>a\<bar> + int (length (v # vs)) * M"
    using ib av by (simp add: algebra_simps)
  then show ?case using ih e by (simp add: algebra_simps)
qed

lemma evaluateLineZ_bound: "\<bar>evaluateLineZ ai line\<bar> \<le> 10 ^ length line"
proof -
  have a: "(10::int) ^ length (filter P line) \<le> 10 ^ length line" for P
    by (rule power_increasing) simp_all
  show ?thesis
    unfolding evaluateLineZ_def Let_def using a by (auto simp: abs_if)
qed

lemma evaluateLine_exact:
  assumes "(10::int) ^ length line < 9007199254740992"
  shows "evaluateLine ai line = Num (Fin (evaluateLineZ ai line))"
proof -
  have a: "(10::int) ^ length (filter P line) < 9007199254740992" for P
  proof -
    have "(10::int) ^ length (filter P line) \<le> 10 ^ length line"
      by (rule power_increasing) simp_all
    then show ?thesis using assms by linarith
  qed
  have p: "jsPow10 (length (filter P line)) = Num (Fin (10 ^ length (filter P line)))" for P
    unfolding jsPow10_def by (rule toDouble_exact) (use a[of P] in simp)
  show ?thesis
    unfolding evaluateLine_def evaluateLineZ_def Let_def by (simp add: p)
qed

lemma length_concat_grid:
  "length (concat (map (\<lambda>r. map (f r) cs) rs)) = length rs * length cs"
  by (induction rs) simp_all

lemma lines_exact:
  assumes "length rs \<le> N" and "length cs \<le> N"
    and "int N * int N * 10 ^ w < 9007199254740992"
    and "\<And>r c. length (L r c) = w"
  shows "foldl jsAdd (Num (Fin 0)) (concat (map (\<lambda>r. map (\<lambda>c. evaluateLine ai (L r c)) cs) rs)) =
           Num (Fin (sum_list (concat (map (\<lambda>r. map (\<lambda>c. evaluateLineZ ai (L r c)) cs) rs)))) \<and>
         \<bar>sum_list (concat (map (\<lambda>r. map (\<lambda>c. evaluateLineZ ai (L r c)) cs) rs))\<bar>
           \<le> int N * int N * 10 ^ w"
proof (cases "N = 0")
  case True
  then have "rs = []" using assms(1) by simp
  then show ?thesis by simp
next
  case False
  let ?vs = "concat (map (\<lambda>r. map (\<lambda>c. evaluateLineZ ai (L r c)) cs) rs)"
  have pw: "(0::int) < 10 ^ w" by simp
  have "1 \<le> int N" using False by simp
  then have "1 * 1 \<le> int N * int N" by (intro mult_mono) simp_all
  then have "1 \<le> int N * int N" by simp
  then have "(10::int) ^ w \<le> int N * int N * 10 ^ w" using pw by (simp add: mult_le_cancel_right1)
  then have w1: "(10::int) ^ w < 9007199254740992" using assms(3) by linarith
  have e: "evaluateLine ai (L r c) = Num (Fin (evaluateLineZ ai (L r c)))" for r c
    by (rule evaluateLine_exact) (simp add: assms(4) w1)
  have l: "concat (map (\<lambda>r. map (\<lambda>c. evaluateLine ai (L r c)) cs) rs) = map (\<lambda>v. Num (Fin v)) ?vs"
    by (simp add: e map_concat comp_def)
  have b0: "\<bar>evaluateLineZ ai (L r c)\<bar> \<le> 10 ^ w" for r c
    using evaluateLineZ_bound[of ai "L r c"] by (simp add: assms(4))
  have b: "\<forall>v\<in>set ?vs. \<bar>v\<bar> \<le> 10 ^ w"
    using b0 by auto
  have "length ?vs = length rs * length cs" by (rule length_concat_grid)
  also have "\<dots> \<le> N * N" using assms(1,2) by (rule mult_le_mono)
  finally have "int (length ?vs) \<le> int N * int N" by (metis of_nat_le_iff of_nat_mult)
  then have n: "int (length ?vs) * 10 ^ w \<le> int N * int N * 10 ^ w"
    using pw by (simp add: mult_le_cancel_right)
  then have c: "\<bar>0::int\<bar> + int (length ?vs) * 10 ^ w < 9007199254740992" using assms(3) by linarith
  note f = foldl_jsAdd_exact[OF b c]
  have f1: "foldl jsAdd (Num (Fin 0)) (map (\<lambda>v. Num (Fin v)) ?vs) = Num (Fin (sum_list ?vs))"
    using f by simp
  have f2: "\<bar>sum_list ?vs\<bar> \<le> int (length ?vs) * 10 ^ w" using f by simp
  have f3: "\<bar>sum_list ?vs\<bar> \<le> int N * int N * 10 ^ w" using f2 n by linarith
  show ?thesis unfolding l using f1 f3 by (rule conjI)
qed

lemma upt_len: "length [0..<Suc n - w] \<le> n + 1"
  by simp

lemma anti_len: "length (rev [int w - 1 .. int n - 1]) \<le> n + 1"
  by simp

lemma evaluateLines_exact:
  assumes "exactScores b"
  shows "evaluateLines ai b d = Num (Fin (evaluateLinesZ ai b d)) \<and>
         \<bar>evaluateLinesZ ai b d\<bar> \<le> (int (sizeB b) + 1) * (int (sizeB b) + 1) * 10 ^ winLength b"
proof -
  let ?N = "sizeB b + 1"
  have N: "int ?N * int ?N * 10 ^ winLength b < 9007199254740992"
    using assms unfolding exactScores_def by (simp add: algebra_simps)
  have iN: "int ?N = int (sizeB b) + 1" by simp
  have l0: "length [0..<sizeB b] \<le> ?N" by simp
  have l1: "length [0..<Suc (sizeB b) - winLength b] \<le> ?N" by simp
  have l2: "length (rev [int (winLength b) - 1 .. int (sizeB b) - 1]) \<le> ?N" by simp
  have z: "(0::int) \<le> (int (sizeB b) + 1) * (int (sizeB b) + 1) * 10 ^ winLength b" by simp
  consider (row) "d = ''row''" | (col) "d \<noteq> ''row''" "d = ''col''"
    | (diag) "d \<noteq> ''row''" "d \<noteq> ''col''" "d = ''diag''"
    | (anti) "d \<noteq> ''row''" "d \<noteq> ''col''" "d \<noteq> ''diag''" "d = ''anti-diag''"
    | (none) "d \<noteq> ''row''" "d \<noteq> ''col''" "d \<noteq> ''diag''" "d \<noteq> ''anti-diag''"
    by blast
  then show ?thesis
  proof cases
    case row
    from lines_exact[OF l0 l1 N, of "\<lambda>r c. map (\<lambda>k. board b ! r ! (c + k)) [0..<winLength b]" ai]
    show ?thesis unfolding evaluateLines_def evaluateLinesZ_def iN using row by simp
  next
    case col
    from lines_exact[OF l0 l1 N, of "\<lambda>c r. map (\<lambda>k. board b ! (r + k) ! c) [0..<winLength b]" ai]
    show ?thesis unfolding evaluateLines_def evaluateLinesZ_def iN using col by simp
  next
    case diag
    from lines_exact[OF l1 l1 N, of "\<lambda>r c. map (\<lambda>k. board b ! (r + k) ! (c + k)) [0..<winLength b]" ai]
    show ?thesis unfolding evaluateLines_def evaluateLinesZ_def iN using diag by simp
  next
    case anti
    from lines_exact[OF l1 l2 N, of "\<lambda>r c. map (\<lambda>k. board b ! (r + k) ! nat (c - int k)) [0..<winLength b]" ai]
    show ?thesis unfolding evaluateLines_def evaluateLinesZ_def iN using anti by simp
  next
    case none
    then show ?thesis unfolding evaluateLines_def evaluateLinesZ_def using z by simp
  qed
qed

lemma evaluateBoard_exact:
  assumes "exactScores b"
  shows "evaluateBoard ai b = Num (Fin (evaluateBoardZ ai b))"
proof -
  let ?B = "(int (sizeB b) + 1) * (int (sizeB b) + 1) * 10 ^ winLength b"
  have B: "4 * ?B < 9007199254740992" using assms unfolding exactScores_def by (simp add: algebra_simps)
  note r = evaluateLines_exact[OF assms, of ai "''row''"]
  note c = evaluateLines_exact[OF assms, of ai "''col''"]
  note d = evaluateLines_exact[OF assms, of ai "''diag''"]
  note a = evaluateLines_exact[OF assms, of ai "''anti-diag''"]
  let ?r = "evaluateLinesZ ai b ''row''" and ?c = "evaluateLinesZ ai b ''col''"
  let ?d = "evaluateLinesZ ai b ''diag''" and ?a = "evaluateLinesZ ai b ''anti-diag''"
  have 1: "jsAdd (Num (Fin 0)) (Num (Fin ?r)) = Num (Fin ?r)"
    using jsAdd_exact[of 0 ?r] r B by simp
  have 2: "jsAdd (Num (Fin ?r)) (Num (Fin ?c)) = Num (Fin (?r + ?c))"
    by (rule jsAdd_exact) (use r c B in linarith)
  have 3: "jsAdd (Num (Fin (?r + ?c))) (Num (Fin ?d)) = Num (Fin (?r + ?c + ?d))"
    by (rule jsAdd_exact) (use r c d B in linarith)
  have 4: "jsAdd (Num (Fin (?r + ?c + ?d))) (Num (Fin ?a)) = Num (Fin (?r + ?c + ?d + ?a))"
    by (rule jsAdd_exact) (use r c d a B in linarith)
  show ?thesis
    unfolding evaluateBoard_def evaluateBoardZ_def
    by (simp only: r c d a 1 2 3 4)
qed

lemma exact_place: "exactScores (snd (placeMarker b r c m)) = exactScores b"
  by (simp add: placeMarker_def exactScores_def)

lemma minimax_Z:
  shows "wf b \<Longrightarrow> exactScores b \<Longrightarrow>
           minimax ai b depth isMaximizing (Num alpha) (Num beta) =
           (Num (fst (minimaxZ ai b depth isMaximizing alpha beta)), b)"
    and "wf b \<Longrightarrow> \<forall>cell\<in>set cells. emptyIn b cell \<Longrightarrow> exactScores b \<Longrightarrow>
           maxLoop ai cells b depth (Num alpha) (Num beta) (Num maxScore) =
           (Num (fst (maxLoopZ ai cells b depth alpha beta maxScore)), b)"
    and "wf b \<Longrightarrow> \<forall>cell\<in>set cells. emptyIn b cell \<Longrightarrow> exactScores b \<Longrightarrow>
           minLoop ai cells b depth (Num alpha) (Num beta) (Num minScore) =
           (Num (fst (minLoopZ ai cells b depth alpha beta minScore)), b)"
proof (induction ai b depth isMaximizing alpha beta
         and ai cells b depth alpha beta maxScore
         and ai cells b depth alpha beta minScore
       rule: minimaxZ_maxLoopZ_minLoopZ.induct)
  case (1 ai b depth isMaximizing alpha beta)
  show ?case
  proof (cases "checkWin b (marker ai) \<or> checkWin b (opponentMarker ai) \<or>
                checkDraw b \<or> maxDepth ai \<le> depth")
    case True
    then show ?thesis
      by (auto simp: minimax.simps minimaxZ.simps evaluateBoard_exact[OF "1.prems"(2)])
  next
    case False
    then have c: "\<not> checkWin b (marker ai)" "\<not> checkWin b (opponentMarker ai)"
      "\<not> (checkDraw b \<or> maxDepth ai \<le> depth)" by simp_all
    have e: "\<forall>cell\<in>set (getEmptyCells b). emptyIn b cell" by (simp add: getEmptyCells_iff)
    show ?thesis
    proof (cases isMaximizing)
      case True
      from "1.IH"(1)[OF c True "1.prems"(1) e "1.prems"(2)] show ?thesis
        using c True by (simp add: minimax.simps minimaxZ.simps)
    next
      case False
      from "1.IH"(2)[OF c False "1.prems"(1) e "1.prems"(2)] show ?thesis
        using c False by (simp add: minimax.simps minimaxZ.simps)
    qed
  qed
next
  case (2 ai b depth alpha beta maxScore)
  show ?case by simp
next
  case (3 ai cell cells b depth alpha beta maxScore)
  let ?b1 = "snd (placeMarker b (int (row cell)) (int (col cell)) (marker ai))"
  let ?res = "minimax ai ?b1 (Suc depth) False (Num alpha) (Num beta)"
  let ?resZ = "minimaxZ ai ?b1 (Suc depth) False alpha beta"
  have e: "emptyIn b cell" and es: "\<forall>cell\<in>set cells. emptyIn b cell" using "3.prems" by simp_all
  have w: "wf b" and x: "exactScores b" using "3.prems" by simp_all
  have w1: "wf ?b1" by (rule wf_place[OF w])
  have x1: "exactScores ?b1" using x by (simp add: exact_place)
  have r: "?res = (Num (fst ?resZ), ?b1)" using "3.IH"(1)[OF refl w1 x1] by simp
  have r1: "snd ?resZ = ?b1" by (rule minimaxZ_restores(1)[OF w1])
  have u: "snd (undoMove ?b1) = b" by (rule place_undo_empty[OF w e])
  show ?case
  proof (cases "beta \<le> max alpha (fst ?resZ)")
    case True
    then show ?thesis by (simp add: Let_def r r1 u)
  next
    case False
    have F: "\<not> beta \<le> max alpha (fst (minimaxZ ai ?b1 (depth + 1) False alpha beta))"
      using False by simp
    have "maxLoop ai cells b depth (Num (max alpha (fst ?resZ))) (Num beta) (Num (max maxScore (fst ?resZ))) =
          (Num (fst (maxLoopZ ai cells b depth (max alpha (fst ?resZ)) beta (max maxScore (fst ?resZ)))), b)"
      using "3.IH"(2)[OF refl refl refl refl refl F] w es x by (simp add: r1 u)
    then show ?thesis using False by (simp add: Let_def r r1 u)
  qed
next
  case (4 ai b depth alpha beta minScore)
  show ?case by simp
next
  case (5 ai cell cells b depth alpha beta minScore)
  let ?b1 = "snd (placeMarker b (int (row cell)) (int (col cell)) (opponentMarker ai))"
  let ?res = "minimax ai ?b1 (Suc depth) True (Num alpha) (Num beta)"
  let ?resZ = "minimaxZ ai ?b1 (Suc depth) True alpha beta"
  have e: "emptyIn b cell" and es: "\<forall>cell\<in>set cells. emptyIn b cell" using "5.prems" by simp_all
  have w: "wf b" and x: "exactScores b" using "5.prems" by simp_all
  have w1: "wf ?b1" by (rule wf_place[OF w])
  have x1: "exactScores ?b1" using x by (simp add: exact_place)
  have r: "?res = (Num (fst ?resZ), ?b1)" using "5.IH"(1)[OF refl w1 x1] by simp
  have r1: "snd ?resZ = ?b1" by (rule minimaxZ_restores(1)[OF w1])
  have u: "snd (undoMove ?b1) = b" by (rule place_undo_empty[OF w e])
  show ?case
  proof (cases "min beta (fst ?resZ) \<le> alpha")
    case True
    then show ?thesis by (simp add: Let_def r r1 u)
  next
    case False
    have F: "\<not> min beta (fst (minimaxZ ai ?b1 (depth + 1) True alpha beta)) \<le> alpha"
      using False by simp
    have "minLoop ai cells b depth (Num alpha) (Num (min beta (fst ?resZ))) (Num (min minScore (fst ?resZ))) =
          (Num (fst (minLoopZ ai cells b depth alpha (min beta (fst ?resZ)) (min minScore (fst ?resZ)))), b)"
      using "5.IH"(2)[OF refl refl refl refl refl F] w es x by (simp add: r1 u)
    then show ?thesis using False by (simp add: Let_def r r1 u)
  qed
qed

lemma minimaxNP_Z:
  shows "wf b \<Longrightarrow> exactScores b \<Longrightarrow>
           minimaxNP ai b depth isMaximizing (Num alpha) (Num beta) =
           (Num (fst (minimaxNPZ ai b depth isMaximizing alpha beta)), b)"
    and "wf b \<Longrightarrow> \<forall>cell\<in>set cells. emptyIn b cell \<Longrightarrow> exactScores b \<Longrightarrow>
           maxLoopNP ai cells b depth (Num alpha) (Num beta) (Num maxScore) =
           (Num (fst (maxLoopNPZ ai cells b depth alpha beta maxScore)), b)"
    and "wf b \<Longrightarrow> \<forall>cell\<in>set cells. emptyIn b cell \<Longrightarrow> exactScores b \<Longrightarrow>
           minLoopNP ai cells b depth (Num alpha) (Num beta) (Num minScore) =
           (Num (fst (minLoopNPZ ai cells b depth alpha beta minScore)), b)"
proof (induction ai b depth isMaximizing alpha beta
         and ai cells b depth alpha beta maxScore
         and ai cells b depth alpha beta minScore
       rule: minimaxNPZ_maxLoopNPZ_minLoopNPZ.induct)
  case (1 ai b depth isMaximizing alpha beta)
  show ?case
  proof (cases "checkWin b (marker ai) \<or> checkWin b (opponentMarker ai) \<or>
                checkDraw b \<or> maxDepth ai \<le> depth")
    case True
    then show ?thesis
      by (auto simp: minimaxNP.simps minimaxNPZ.simps evaluateBoard_exact[OF "1.prems"(2)])
  next
    case False
    then have c: "\<not> checkWin b (marker ai)" "\<not> checkWin b (opponentMarker ai)"
      "\<not> (checkDraw b \<or> maxDepth ai \<le> depth)" by simp_all
    have e: "\<forall>cell\<in>set (getEmptyCells b). emptyIn b cell" by (simp add: getEmptyCells_iff)
    show ?thesis
    proof (cases isMaximizing)
      case True
      from "1.IH"(1)[OF c True "1.prems"(1) e "1.prems"(2)] show ?thesis
        using c True by (simp add: minimaxNP.simps minimaxNPZ.simps)
    next
      case False
      from "1.IH"(2)[OF c False "1.prems"(1) e "1.prems"(2)] show ?thesis
        using c False by (simp add: minimaxNP.simps minimaxNPZ.simps)
    qed
  qed
next
  case (2 ai b depth alpha beta maxScore)
  show ?case by simp
next
  case (3 ai cell cells b depth alpha beta maxScore)
  let ?b1 = "snd (placeMarker b (int (row cell)) (int (col cell)) (marker ai))"
  let ?res = "minimaxNP ai ?b1 (Suc depth) False (Num alpha) (Num beta)"
  let ?resZ = "minimaxNPZ ai ?b1 (Suc depth) False alpha beta"
  have e: "emptyIn b cell" and es: "\<forall>cell\<in>set cells. emptyIn b cell" using "3.prems" by simp_all
  have w: "wf b" and x: "exactScores b" using "3.prems" by simp_all
  have w1: "wf ?b1" by (rule wf_place[OF w])
  have x1: "exactScores ?b1" using x by (simp add: exact_place)
  have r: "?res = (Num (fst ?resZ), ?b1)" using "3.IH"(1)[OF refl w1 x1] by simp
  have r1: "snd ?resZ = ?b1" by (rule minimaxNPZ_restores(1)[OF w1])
  have u: "snd (undoMove ?b1) = b" by (rule place_undo_empty[OF w e])
  have "maxLoopNP ai cells b depth (Num (max alpha (fst ?resZ))) (Num beta) (Num (max maxScore (fst ?resZ))) =
        (Num (fst (maxLoopNPZ ai cells b depth (max alpha (fst ?resZ)) beta (max maxScore (fst ?resZ)))), b)"
    using "3.IH"(2)[OF refl refl refl refl refl] w es x by (simp add: r1 u)
  then show ?case by (simp add: Let_def r r1 u)
next
  case (4 ai b depth alpha beta minScore)
  show ?case by simp
next
  case (5 ai cell cells b depth alpha beta minScore)
  let ?b1 = "snd (placeMarker b (int (row cell)) (int (col cell)) (opponentMarker ai))"
  let ?res = "minimaxNP ai ?b1 (Suc depth) True (Num alpha) (Num beta)"
  let ?resZ = "minimaxNPZ ai ?b1 (Suc depth) True alpha beta"
  have e: "emptyIn b cell" and es: "\<forall>cell\<in>set cells. emptyIn b cell" using "5.prems" by simp_all
  have w: "wf b" and x: "exactScores b" using "5.prems" by simp_all
  have w1: "wf ?b1" by (rule wf_place[OF w])
  have x1: "exactScores ?b1" using x by (simp add: exact_place)
  have r: "?res = (Num (fst ?resZ), ?b1)" using "5.IH"(1)[OF refl w1 x1] by simp
  have r1: "snd ?resZ = ?b1" by (rule minimaxNPZ_restores(1)[OF w1])
  have u: "snd (undoMove ?b1) = b" by (rule place_undo_empty[OF w e])
  have "minLoopNP ai cells b depth (Num alpha) (Num (min beta (fst ?resZ))) (Num (min minScore (fst ?resZ))) =
        (Num (fst (minLoopNPZ ai cells b depth alpha (min beta (fst ?resZ)) (min minScore (fst ?resZ)))), b)"
    using "5.IH"(2)[OF refl refl refl refl refl] w es x by (simp add: r1 u)
  then show ?case by (simp add: Let_def r r1 u)
qed

lemma bestLoop_Z:
  assumes "wf b" "exactScores b"
  shows "\<forall>cell\<in>set cells. emptyIn b cell \<Longrightarrow>
         bestLoop ai cells b (Num bestScore) bestMove = bestLoopZ ai cells b bestScore bestMove"
proof (induction cells arbitrary: bestScore bestMove)
  case Nil
  show ?case by simp
next
  case (Cons cell cells)
  let ?b1 = "snd (placeMarker b (int (row cell)) (int (col cell)) (marker ai))"
  have e: "emptyIn b cell" and es: "\<forall>cell\<in>set cells. emptyIn b cell" using Cons.prems by simp_all
  have w1: "wf ?b1" by (rule wf_place[OF assms(1)])
  have x1: "exactScores ?b1" using assms(2) by (simp add: exact_place)
  have r: "minimax ai ?b1 0 False (Num NegInf) (Num PosInf) =
           (Num (fst (minimaxZ ai ?b1 0 False NegInf PosInf)), ?b1)"
    by (rule minimax_Z(1)[OF w1 x1])
  have r1: "snd (minimaxZ ai ?b1 0 False NegInf PosInf) = ?b1"
    by (rule minimaxZ_restores(1)[OF w1])
  have u: "snd (undoMove ?b1) = b" by (rule place_undo_empty[OF assms(1) e])
  show ?case using Cons.IH[OF es] by (simp add: Let_def r r1 u)
qed

lemma bestLoopNP_Z:
  assumes "wf b" "exactScores b"
  shows "\<forall>cell\<in>set cells. emptyIn b cell \<Longrightarrow>
         bestLoopNP ai cells b (Num bestScore) bestMove = bestLoopNPZ ai cells b bestScore bestMove"
proof (induction cells arbitrary: bestScore bestMove)
  case Nil
  show ?case by simp
next
  case (Cons cell cells)
  let ?b1 = "snd (placeMarker b (int (row cell)) (int (col cell)) (marker ai))"
  have e: "emptyIn b cell" and es: "\<forall>cell\<in>set cells. emptyIn b cell" using Cons.prems by simp_all
  have w1: "wf ?b1" by (rule wf_place[OF assms(1)])
  have x1: "exactScores ?b1" using assms(2) by (simp add: exact_place)
  have r: "minimaxNP ai ?b1 0 False (Num NegInf) (Num PosInf) =
           (Num (fst (minimaxNPZ ai ?b1 0 False NegInf PosInf)), ?b1)"
    by (rule minimaxNP_Z(1)[OF w1 x1])
  have r1: "snd (minimaxNPZ ai ?b1 0 False NegInf PosInf) = ?b1"
    by (rule minimaxNPZ_restores(1)[OF w1])
  have u: "snd (undoMove ?b1) = b" by (rule place_undo_empty[OF assms(1) e])
  show ?case using Cons.IH[OF es] by (simp add: Let_def r r1 u)
qed

lemma emptyIn_none_iff:
  "getEmptyCells b = [] \<longleftrightarrow> (\<forall>r<sizeB b. \<forall>c<sizeB b. board b ! r ! c \<noteq> EMPTY)"
proof
  assume e: "getEmptyCells b = []"
  show "\<forall>r<sizeB b. \<forall>c<sizeB b. board b ! r ! c \<noteq> EMPTY"
  proof (intro allI impI)
    fix r c assume "r < sizeB b" "c < sizeB b"
    then show "board b ! r ! c \<noteq> EMPTY"
      using getEmptyCells_iff[of "\<lparr>row = r, col = c\<rparr>" b] e by (simp add: emptyIn_def)
  qed
next
  assume a: "\<forall>r<sizeB b. \<forall>c<sizeB b. board b ! r ! c \<noteq> EMPTY"
  have n: "\<And>cell. cell \<notin> set (getEmptyCells b)"
    using a by (auto simp: getEmptyCells_iff emptyIn_def)
  show "getEmptyCells b = []"
  proof (cases "getEmptyCells b")
    case Nil
    then show ?thesis .
  next
    case (Cons x xs)
    then have "x \<in> set (getEmptyCells b)" by simp
    with n show ?thesis by blast
  qed
qed

lemma wf_undo: "wf b \<Longrightarrow> wf (snd (undoMove b))"
  by (auto simp: undoMove_def Let_def wf_def list_all_length)

lemma wf_applyOp:
  assumes "wf b"
  shows "wf (applyOp b op)"
proof (cases op)
  case (Place r c p)
  then show ?thesis using wf_place[OF assms] by simp
next
  case Undo
  then show ?thesis using wf_undo[OF assms] by simp
next
  case Switch
  then show ?thesis using assms by (simp add: switchPlayer_def wf_def)
qed

lemma wf_reachable: "wf b \<Longrightarrow> wf (foldl applyOp b ops)"
  by (induction ops arbitrary: b) (simp_all add: wf_applyOp)


lemma exact_undo: "exactScores (snd (undoMove b)) = exactScores b"
  by (simp add: undoMove_def exactScores_def Let_def)

lemma exact_switch: "exactScores (switchPlayer b) = exactScores b"
  by (simp add: switchPlayer_def exactScores_def)

lemma exact_applyOp: "exactScores (applyOp b op) = exactScores b"
  by (cases op) (simp_all only: applyOp.simps exact_place exact_undo exact_switch)

lemma exact_reachable: "exactScores (foldl applyOp b ops) = exactScores b"
  by (induction ops arbitrary: b) (simp_all add: exact_applyOp)

lemma makeMinimaxMove_Z:
  assumes "wf b" "exactScores b"
  shows "makeMinimaxMove ai u b =
     (let emptyCells = getEmptyCells b in
      if length emptyCells = 0 then None
      else if length emptyCells = 1 then Some (emptyCells ! 0)
      else if int (length emptyCells) > int (sizeB b) * int (sizeB b) - 3
        then makeMediumMove ai u b
      else fst (bestLoopZ ai emptyCells b NegInf None))"
proof -
  have e: "\<forall>cell\<in>set (getEmptyCells b). emptyIn b cell" by (simp add: getEmptyCells_iff)
  show ?thesis
    unfolding makeMinimaxMove_def clone_id
    by (simp add: Let_def bestLoop_Z[OF assms e])
qed

lemma makeMinimaxMoveNP_Z:
  assumes "wf b" "exactScores b"
  shows "makeMinimaxMoveNP ai u b =
     (let emptyCells = getEmptyCells b in
      if length emptyCells = 0 then None
      else if length emptyCells = 1 then Some (emptyCells ! 0)
      else if int (length emptyCells) > int (sizeB b) * int (sizeB b) - 3
        then makeMediumMove ai u b
      else fst (bestLoopNPZ ai emptyCells b NegInf None))"
proof -
  have e: "\<forall>cell\<in>set (getEmptyCells b). emptyIn b cell" by (simp add: getEmptyCells_iff)
  show ?thesis
    unfolding makeMinimaxMoveNP_def clone_id
    by (simp add: Let_def bestLoopNP_Z[OF assms e])
qed

lemma makeMinimaxMove_legal:
  assumes "wf b" "0 < sizeB b" "0 \<le> u" "u < 1" "exactScores b"
  shows "(makeMinimaxMove ai u b = None \<longleftrightarrow> getEmptyCells b = []) \<and>
         (\<forall>cell. makeMinimaxMove ai u b = Some cell \<longrightarrow> emptyIn b cell)"
proof -
  let ?cells = "getEmptyCells b"
  note mz = makeMinimaxMove_Z[OF assms(1,5), of ai u]
  consider (none) "length ?cells = 0"
    | (one) "length ?cells = 1"
    | (medium) "length ?cells \<noteq> 0" "length ?cells \<noteq> 1"
        "int (length ?cells) > int (sizeB b) * int (sizeB b) - 3"
    | (search) "length ?cells \<noteq> 0" "length ?cells \<noteq> 1"
        "\<not> int (length ?cells) > int (sizeB b) * int (sizeB b) - 3"
    by blast
  then show ?thesis
  proof cases
    case none
    then show ?thesis by (simp add: mz Let_def)
  next
    case one
    have ne: "?cells \<noteq> []" using one by auto
    have m: "makeMinimaxMove ai u b = Some (?cells ! 0)"
      using one ne by (simp add: mz Let_def)
    have "?cells ! 0 \<in> set ?cells" using ne by simp
    then have "emptyIn b (?cells ! 0)" by (simp add: getEmptyCells_iff)
    then show ?thesis using m ne by simp
  next
    case medium
    then have m: "makeMinimaxMove ai u b = cascade ai u b"
      by (simp add: mz Let_def makeMediumMove_cascade[OF assms(1)])
    show ?thesis
      unfolding m using cascade_None[OF assms(2), of ai u] cascade_legal[OF assms(2,3,4), of ai]
      by blast
  next
    case search
    then have m: "makeMinimaxMove ai u b = fst (bestLoopZ ai ?cells b NegInf None)"
      by (simp add: mz Let_def)
    have ne: "?cells \<noteq> []" using search(1) by simp
    from bestLoopZ_first[OF ne, of ai b] obtain cell where
      c: "cell \<in> set ?cells" "fst (bestLoopZ ai ?cells b NegInf None) = Some cell" by blast
    then have "emptyIn b cell" by (simp add: getEmptyCells_iff)
    then show ?thesis using m c ne by simp
  qed
qed

lemma makeMove_legal:
  assumes "wf b" "0 < sizeB b" "0 \<le> u" "u < 1"
    and "difficulty ai = ''easy'' \<or> difficulty ai = ''medium'' \<or> exactScores b"
  shows "(makeMove ai u b = None \<longleftrightarrow> getEmptyCells b = []) \<and>
         (\<forall>cell. makeMove ai u b = Some cell \<longrightarrow> emptyIn b cell)"
proof -
  consider (easy) "difficulty ai = ''easy''"
    | (medium) "difficulty ai \<noteq> ''easy''" "difficulty ai = ''medium''"
    | (hard) "difficulty ai \<noteq> ''easy''" "difficulty ai \<noteq> ''medium''"
    by blast
  then show ?thesis
  proof cases
    case easy
    then have m: "makeMove ai u b = makeRandomMove u b" by (simp add: makeMove_def)
    show ?thesis
      unfolding m using makeRandomMove_None[of u b] makeRandomMove_legal[OF assms(3,4), of b] by blast
  next
    case medium
    then have m: "makeMove ai u b = cascade ai u b"
      by (simp add: makeMove_def makeMediumMove_cascade[OF assms(1)])
    show ?thesis
      unfolding m using cascade_None[OF assms(2), of ai u] cascade_legal[OF assms(2,3,4), of ai]
      by blast
  next
    case hard
    then have m: "makeMove ai u b = makeMinimaxMove ai u b" by (simp add: makeMove_def)
    have x: "exactScores b" using hard assms(5) by blast
    show ?thesis unfolding m by (rule makeMinimaxMove_legal[OF assms(1,2,3,4) x])
  qed
qed

text \<open>
  C4. On every well-formed board with exact scores, and so on every board with exact
  scores reached from a fresh one by \<open>placeMarker\<close>, \<open>undoMove\<close> and
  \<open>switchPlayer\<close>, and for every AI (any marker, any \<open>maxDepth\<close>),
  \<open>makeMinimaxMove\<close> returns the move that the same procedure without the two
  \<open>beta <= alpha\<close> cut-offs returns. Scores are exact when
  \<open>4 * (size + 1)^2 * 10^winLength < 2^53\<close>, which covers the board sizes 3 to 7 of
  the game; \<open>pruning_changes_move\<close> below shows a 312-by-312 board where the two
  procedures return different moves.
\<close>

theorem pruning_preserves_move:
  "(wf b \<and> exactScores b \<longrightarrow> makeMinimaxMove ai u b = makeMinimaxMoveNP ai u b) \<and>
   (exactScores (newBoard n w) \<longrightarrow>
      makeMinimaxMove ai u (foldl applyOp (newBoard n w) ops) =
      makeMinimaxMoveNP ai u (foldl applyOp (newBoard n w) ops))"
proof -
  have g: "makeMinimaxMove ai u b = makeMinimaxMoveNP ai u b" if "wf b" "exactScores b" for b
  proof -
    have e: "\<forall>cell\<in>set (getEmptyCells b). emptyIn b cell" by (simp add: getEmptyCells_iff)
    show ?thesis
      unfolding makeMinimaxMove_Z[OF that] makeMinimaxMoveNP_Z[OF that]
      by (simp add: Let_def bestLoopZ_eq[OF that(1) e])
  qed
  show ?thesis using g wf_reachable[OF wf_newBoard] exact_reachable by blast
qed

theorem pruning_preserves_move_witness:
  "wf (foldl applyOp (newBoard 3 3)
        [Place 0 0 ''X'', Place 1 1 ''O'', Place 0 1 ''X'', Place 0 2 ''O'']) \<and>
   exactScores (foldl applyOp (newBoard 3 3)
        [Place 0 0 ''X'', Place 1 1 ''O'', Place 0 1 ''X'', Place 0 2 ''O'']) \<and>
   makeMinimaxMove (newAI ''X'' ''hard'') (1 / 2)
     (foldl applyOp (newBoard 3 3)
        [Place 0 0 ''X'', Place 1 1 ''O'', Place 0 1 ''X'', Place 0 2 ''O'']) =
     Some \<lparr>row = 2, col = 0\<rparr> \<and>
   makeMinimaxMoveNP (newAI ''X'' ''hard'') (1 / 2)
     (foldl applyOp (newBoard 3 3)
        [Place 0 0 ''X'', Place 1 1 ''O'', Place 0 1 ''X'', Place 0 2 ''O'']) =
     Some \<lparr>row = 2, col = 0\<rparr>"
proof -
  let ?b = "foldl applyOp (newBoard 3 3)
        [Place 0 0 ''X'', Place 1 1 ''O'', Place 0 1 ''X'', Place 0 2 ''O'']"
  let ?ai = "newAI ''X'' ''hard''"
  have w: "wf ?b" by code_simp
  have x: "exactScores ?b" by code_simp
  have m: "makeMinimaxMove ?ai (1 / 2) ?b = Some \<lparr>row = 2, col = 0\<rparr>" by code_simp
  have "makeMinimaxMove ?ai (1 / 2) ?b = makeMinimaxMoveNP ?ai (1 / 2) ?b"
    using pruning_preserves_move[of ?b ?ai "1 / 2"] w x by blast
  then show ?thesis using w x m by simp
qed

text \<open>
  C8. On a well-formed board of positive size, at difficulty \<open>'easy'\<close> or
  \<open>'medium'\<close>, or at any other difficulty when the board has exact scores,
  \<open>makeMove\<close> returns \<open>null\<close> exactly when no cell is blank, and any move it
  returns lies inside the grid on a blank cell. (\<open>u\<close> is the value of
  \<open>Math.random()\<close>.) \<open>makeMove_null_with_blanks\<close> below shows a 312-by-312
  board with seven blank cells where \<open>makeMove\<close> returns \<open>null\<close> at difficulty
  \<open>'hard'\<close>.
\<close>

theorem makeMove_legal_move:
  assumes "wf b" and "0 < sizeB b" and "0 \<le> u" and "u < 1"
    and "difficulty ai = ''easy'' \<or> difficulty ai = ''medium'' \<or> exactScores b"
  shows "(makeMove ai u b = None \<longleftrightarrow> (\<forall>r<sizeB b. \<forall>c<sizeB b. board b ! r ! c \<noteq> EMPTY)) \<and>
         (\<forall>cell. makeMove ai u b = Some cell \<longrightarrow>
            row cell < sizeB b \<and> col cell < sizeB b \<and> board b ! row cell ! col cell = EMPTY)"
  using makeMove_legal[OF assms, of ] unfolding emptyIn_none_iff emptyIn_def .

theorem makeMove_legal_move_witness:
  "wf (foldl applyOp (newBoard 3 3)
        [Place 0 0 ''X'', Place 1 1 ''O'', Place 0 1 ''X'', Place 0 2 ''O'']) \<and>
   0 < sizeB (foldl applyOp (newBoard 3 3)
        [Place 0 0 ''X'', Place 1 1 ''O'', Place 0 1 ''X'', Place 0 2 ''O'']) \<and>
   (0::real) \<le> 1 / 2 \<and> (1 / 2 :: real) < 1 \<and>
   exactScores (foldl applyOp (newBoard 3 3)
        [Place 0 0 ''X'', Place 1 1 ''O'', Place 0 1 ''X'', Place 0 2 ''O'']) \<and>
   makeMove (newAI ''X'' ''hard'') (1 / 2) (foldl applyOp (newBoard 3 3)
        [Place 0 0 ''X'', Place 1 1 ''O'', Place 0 1 ''X'', Place 0 2 ''O'']) =
     Some \<lparr>row = 2, col = 0\<rparr> \<and>
   board (foldl applyOp (newBoard 3 3)
        [Place 0 0 ''X'', Place 1 1 ''O'', Place 0 1 ''X'', Place 0 2 ''O'']) ! 2 ! 0 = EMPTY"
proof -
  let ?b = "foldl applyOp (newBoard 3 3)
        [Place 0 0 ''X'', Place 1 1 ''O'', Place 0 1 ''X'', Place 0 2 ''O'']"
  let ?ai = "newAI ''X'' ''hard''"
  have w: "wf ?b" and s: "0 < sizeB ?b" by code_simp+
  have u: "(0::real) \<le> 1 / 2" "(1 / 2 :: real) < 1" by simp_all
  have x: "exactScores ?b" by code_simp
  have x': "difficulty ?ai = ''easy'' \<or> difficulty ?ai = ''medium'' \<or> exactScores ?b"
    using x by blast
  have m: "makeMove ?ai (1 / 2) ?b = Some \<lparr>row = 2, col = 0\<rparr>" by code_simp
  from makeMove_legal_move[OF w s u x'] m
  have "board ?b ! row \<lparr>row = 2, col = 0\<rparr> ! col \<lparr>row = 2, col = 0\<rparr> = EMPTY" by blast
  then have "board ?b ! 2 ! 0 = EMPTY" by simp
  then show ?thesis using w s u x m by blast
qed



lemma hard_or_master:
  assumes "getMaxDepthForDifficulty d = 3 \<or> getMaxDepthForDifficulty d = 4"
  shows "d = ''hard'' \<or> d = ''master''"
  using assms unfolding getMaxDepthForDifficulty_def by (auto split: if_splits)

text \<open>
  C10. For an AI built by the constructor with \<open>maxDepth\<close> 3 or 4, on a board with more
  than \<open>size * size - 3\<close> empty cells and more than one empty cell, \<open>makeMove\<close> returns
  what \<open>makeMediumMove\<close> returns, which on a well-formed board is the rule cascade.
\<close>

theorem opening_uses_cascade:
  assumes "ai = newAI m d" and "maxDepth ai = 3 \<or> maxDepth ai = 4"
    and "int (length (getEmptyCells b)) > int (sizeB b) * int (sizeB b) - 3"
    and "length (getEmptyCells b) > 1"
  shows "makeMove ai u b = makeMediumMove ai u b \<and> (wf b \<longrightarrow> makeMove ai u b = cascade ai u b)"
proof -
  have "getMaxDepthForDifficulty d = 3 \<or> getMaxDepthForDifficulty d = 4"
    using assms(1,2) by (simp add: newAI_def)
  from hard_or_master[OF this] have d: "difficulty ai = ''hard'' \<or> difficulty ai = ''master''"
    using assms(1) by (simp add: newAI_def)
  then have "makeMove ai u b = makeMinimaxMove ai u b" by (auto simp: makeMove_def)
  also have "\<dots> = makeMediumMove ai u b"
  proof -
    have "length (getEmptyCells b) \<noteq> 0" "length (getEmptyCells b) \<noteq> 1"
      using assms(4) by auto
    then show ?thesis
      using assms(3) unfolding makeMinimaxMove_def clone_id Let_def by (simp only: if_False if_True)
  qed
  finally have 1: "makeMove ai u b = makeMediumMove ai u b" .
  then show ?thesis using makeMediumMove_cascade[of b ai u] by simp
qed

theorem opening_uses_cascade_witness:
  "maxDepth (newAI ''X'' ''hard'') = 3 \<and>
   int (length (getEmptyCells (foldl applyOp (newBoard 3 3) [Place 0 0 ''X'', Place 0 1 ''X'']))) >
     int (sizeB (foldl applyOp (newBoard 3 3) [Place 0 0 ''X'', Place 0 1 ''X''])) *
     int (sizeB (foldl applyOp (newBoard 3 3) [Place 0 0 ''X'', Place 0 1 ''X''])) - 3 \<and>
   length (getEmptyCells (foldl applyOp (newBoard 3 3) [Place 0 0 ''X'', Place 0 1 ''X''])) > 1 \<and>
   makeMediumMove (newAI ''X'' ''hard'') (1 / 2)
     (foldl applyOp (newBoard 3 3) [Place 0 0 ''X'', Place 0 1 ''X'']) = Some \<lparr>row = 0, col = 2\<rparr> \<and>
   makeMove (newAI ''X'' ''hard'') (1 / 2)
     (foldl applyOp (newBoard 3 3) [Place 0 0 ''X'', Place 0 1 ''X'']) = Some \<lparr>row = 0, col = 2\<rparr>"
proof -
  let ?b = "foldl applyOp (newBoard 3 3) [Place 0 0 ''X'', Place 0 1 ''X'']"
  let ?ai = "newAI ''X'' ''hard''"
  have d: "maxDepth ?ai = 3" by (simp add: newAI_def getMaxDepthForDifficulty_def)
  then have d': "maxDepth ?ai = 3 \<or> maxDepth ?ai = 4" by simp
  have l: "int (length (getEmptyCells ?b)) > int (sizeB ?b) * int (sizeB ?b) - 3" by code_simp
  have l1: "length (getEmptyCells ?b) > 1" by code_simp
  have m: "makeMediumMove ?ai (1 / 2) ?b = Some \<lparr>row = 0, col = 2\<rparr>" by code_simp
  from opening_uses_cascade[OF refl d' l l1, of "1 / 2"]
  have "makeMove ?ai (1 / 2) ?b = makeMediumMove ?ai (1 / 2) ?b" by blast
  then show ?thesis using d l l1 m by simp
qed

section \<open>The AI works on its own copy\<close>

lemma map_upd_distinct:
  "distinct g \<Longrightarrow> i < length g \<Longrightarrow> map (f(g ! i := v)) g = (map f g)[i := v]"
  by (auto simp: list_eq_iff_nth_eq nth_list_update nth_eq_iff_index_eq)

lemma writesOnly_refl: "writesOnly c h h"
  by (simp add: writesOnly_def)

lemma writesOnly_trans: "writesOnly c h h1 \<Longrightarrow> writesOnly c h1 h2 \<Longrightarrow> writesOnly c h h2"
  by (simp add: writesOnly_def)

lemma writesOnly_grid:
  "writesOnly c h h' \<Longrightarrow> gridsH h' (o_board (objsH h' c)) = gridsH h (o_board (objsH h c))"
  by (simp add: writesOnly_def)

lemma board_absBoard: "board (absBoard h c) = map (rowsH h) (gridsH h (o_board (objsH h c)))"
  by (simp add: absBoard_def)

lemma hPlace_sim:
  assumes d: "distinct (gridsH h (o_board (objsH h c)))" and w: "wf (absBoard h c)"
  shows "fst (hPlaceMarker h c r k p) = fst (placeMarker (absBoard h c) r k p)"
    and "absBoard (snd (hPlaceMarker h c r k p)) c = snd (placeMarker (absBoard h c) r k p)"
    and "writesOnly c h (snd (hPlaceMarker h c r k p))"
proof -
  let ?ob = "objsH h c"
  let ?g = "gridsH h (o_board ?ob)"
  have len: "length ?g = o_size ?ob" using w by (simp add: wf_def absBoard_def)
  have sz: "sizeB (absBoard h c) = o_size ?ob" by (simp add: absBoard_def)
  show "writesOnly c h (snd (hPlaceMarker h c r k p))"
  proof (cases "0 \<le> r \<and> r < int (o_size ?ob)")
    case True
    then have "nat r < length ?g" using len by linarith
    then have "?g ! nat r \<in> set ?g" by (rule nth_mem)
    then show ?thesis by (auto simp: hPlaceMarker_def Let_def writesOnly_def)
  next
    case False
    then show ?thesis by (auto simp: hPlaceMarker_def Let_def writesOnly_def)
  qed
  show "fst (hPlaceMarker h c r k p) = fst (placeMarker (absBoard h c) r k p)"
    using len by (auto simp: hPlaceMarker_def placeMarker_def Let_def sz board_absBoard)
  show "absBoard (snd (hPlaceMarker h c r k p)) c = snd (placeMarker (absBoard h c) r k p)"
  proof (cases "r < 0 \<or> r \<ge> int (o_size ?ob) \<or> k < 0 \<or> k \<ge> int (o_size ?ob) \<or>
                rowsH h (?g ! nat r) ! nat k \<noteq> EMPTY")
    case True
    then have "snd (hPlaceMarker h c r k p) = h" by (auto simp: hPlaceMarker_def Let_def)
    moreover have "snd (placeMarker (absBoard h c) r k p) = absBoard h c"
      using True len by (auto simp: placeMarker_def sz board_absBoard)
    ultimately show ?thesis by simp
  next
    case False
    then have rng: "0 \<le> r" "r < int (o_size ?ob)" "0 \<le> k" "k < int (o_size ?ob)"
      and e: "rowsH h (?g ! nat r) ! nat k = EMPTY" by auto
    have i: "nat r < length ?g" using rng len by linarith
    have m: "map ((rowsH h)(?g ! nat r := (rowsH h (?g ! nat r))[nat k := p])) ?g =
             setCell (map (rowsH h) ?g) (nat r) (nat k) p"
      using map_upd_distinct[OF d i] i by (simp add: setCell_def)
    have 1: "snd (hPlaceMarker h c r k p) =
       h\<lparr>rowsH := (rowsH h)(?g ! nat r := (rowsH h (?g ! nat r))[nat k := p]),
         histsH := (histsH h)(o_moveHistory ?ob :=
            histsH h (o_moveHistory ?ob) @ [\<lparr>row = nat r, col = nat k, player = p\<rparr>])\<rparr>"
      using rng e by (simp add: hPlaceMarker_def Let_def)
    have 2: "snd (placeMarker (absBoard h c) r k p) =
       (absBoard h c)\<lparr>board := setCell (board (absBoard h c)) (nat r) (nat k) p,
         moveHistory := moveHistory (absBoard h c) @ [\<lparr>row = nat r, col = nat k, player = p\<rparr>]\<rparr>"
      using rng e i by (simp add: placeMarker_def sz board_absBoard)
    show ?thesis unfolding 1 2 by (simp add: absBoard_def m)
  qed
qed

lemma hUndo_sim:
  assumes d: "distinct (gridsH h (o_board (objsH h c)))" and w: "wf (absBoard h c)"
    and l: "moveHistory (absBoard h c) \<noteq> [] \<longrightarrow> row (last (moveHistory (absBoard h c))) < sizeB (absBoard h c)"
  shows "fst (hUndoMove h c) = fst (undoMove (absBoard h c))"
    and "absBoard (snd (hUndoMove h c)) c = snd (undoMove (absBoard h c))"
    and "writesOnly c h (snd (hUndoMove h c))"
proof -
  let ?ob = "objsH h c"
  let ?g = "gridsH h (o_board ?ob)"
  let ?ms = "histsH h (o_moveHistory ?ob)"
  have len: "length ?g = o_size ?ob" using w by (simp add: wf_def absBoard_def)
  have sz: "sizeB (absBoard h c) = o_size ?ob" and ms: "moveHistory (absBoard h c) = ?ms"
    by (simp_all add: absBoard_def)
  show "fst (hUndoMove h c) = fst (undoMove (absBoard h c))"
    by (simp add: hUndoMove_def undoMove_def Let_def ms)
  show "writesOnly c h (snd (hUndoMove h c))"
  proof (cases "?ms = []")
    case True
    then show ?thesis by (simp add: hUndoMove_def Let_def writesOnly_def)
  next
    case False
    then have "row (last ?ms) < length ?g" using l len by (simp add: ms sz)
    then have "?g ! row (last ?ms) \<in> set ?g" by (rule nth_mem)
    then show ?thesis using False by (auto simp: hUndoMove_def Let_def writesOnly_def)
  qed
  show "absBoard (snd (hUndoMove h c)) c = snd (undoMove (absBoard h c))"
  proof (cases "?ms = []")
    case True
    then show ?thesis by (simp add: hUndoMove_def undoMove_def Let_def ms)
  next
    case False
    then have i: "row (last ?ms) < length ?g" using l len by (simp add: ms sz)
    have m: "map ((rowsH h)(?g ! row (last ?ms) := (rowsH h (?g ! row (last ?ms)))[col (last ?ms) := EMPTY])) ?g =
             setCell (map (rowsH h) ?g) (row (last ?ms)) (col (last ?ms)) EMPTY"
      using map_upd_distinct[OF d i] i by (simp add: setCell_def)
    show ?thesis
      using False by (simp add: hUndoMove_def undoMove_def Let_def absBoard_def m)
  qed
qed

lemma writesOnly_distinct:
  "writesOnly c h h' \<Longrightarrow> distinct (gridsH h (o_board (objsH h c))) \<Longrightarrow>
   distinct (gridsH h' (o_board (objsH h' c)))"
  by (simp add: writesOnly_def)

lemma hStep_place:
  assumes d: "distinct (gridsH h (o_board (objsH h c)))" and w: "wf (absBoard h c)"
  shows "absBoard (snd (hPlaceMarker h c r k m)) c = snd (placeMarker (absBoard h c) r k m)"
    and "writesOnly c h (snd (hPlaceMarker h c r k m))"
    and "distinct (gridsH (snd (hPlaceMarker h c r k m)) (o_board (objsH (snd (hPlaceMarker h c r k m)) c)))"
    and "wf (absBoard (snd (hPlaceMarker h c r k m)) c)"
proof -
  show 1: "absBoard (snd (hPlaceMarker h c r k m)) c = snd (placeMarker (absBoard h c) r k m)"
    by (rule hPlace_sim(2)[OF d w])
  show 2: "writesOnly c h (snd (hPlaceMarker h c r k m))" by (rule hPlace_sim(3)[OF d w])
  show "distinct (gridsH (snd (hPlaceMarker h c r k m)) (o_board (objsH (snd (hPlaceMarker h c r k m)) c)))"
    by (rule writesOnly_distinct[OF 2 d])
  show "wf (absBoard (snd (hPlaceMarker h c r k m)) c)"
    unfolding 1 by (rule wf_place[OF w])
qed

lemma hStep_undo:
  assumes d: "distinct (gridsH h (o_board (objsH h c)))" and w: "wf (absBoard h c)"
    and e: "emptyIn (absBoard h c) cell"
    and a: "absBoard h2 c = snd (placeMarker (absBoard h c) (int (row cell)) (int (col cell)) m)"
    and wo: "writesOnly c h h2"
  shows "absBoard (snd (hUndoMove h2 c)) c = absBoard h c"
    and "writesOnly c h (snd (hUndoMove h2 c))"
    and "distinct (gridsH (snd (hUndoMove h2 c)) (o_board (objsH (snd (hUndoMove h2 c)) c)))"
proof -
  let ?b = "absBoard h c"
  let ?b1 = "snd (placeMarker ?b (int (row cell)) (int (col cell)) m)"
  have d2: "distinct (gridsH h2 (o_board (objsH h2 c)))" by (rule writesOnly_distinct[OF wo d])
  have w2: "wf (absBoard h2 c)" unfolding a by (rule wf_place[OF w])
  have b1: "?b1 = ?b\<lparr>board := setCell (board ?b) (row cell) (col cell) m,
              moveHistory := moveHistory ?b @ [\<lparr>row = row cell, col = col cell, player = m\<rparr>]\<rparr>"
    using place_empty[OF e, of m] by simp
  have l: "moveHistory (absBoard h2 c) \<noteq> [] \<longrightarrow>
           row (last (moveHistory (absBoard h2 c))) < sizeB (absBoard h2 c)"
    unfolding a b1 using e by (simp add: emptyIn_def)
  have "absBoard (snd (hUndoMove h2 c)) c = snd (undoMove (absBoard h2 c))"
    by (rule hUndo_sim(2)[OF d2 w2 l])
  also have "\<dots> = ?b" unfolding a by (rule place_undo_empty[OF w e])
  finally show "absBoard (snd (hUndoMove h2 c)) c = absBoard h c" .
  have "writesOnly c h2 (snd (hUndoMove h2 c))" by (rule hUndo_sim(3)[OF d2 w2 l])
  then show 2: "writesOnly c h (snd (hUndoMove h2 c))" by (rule writesOnly_trans[OF wo])
  show "distinct (gridsH (snd (hUndoMove h2 c)) (o_board (objsH (snd (hUndoMove h2 c)) c)))"
    by (rule writesOnly_distinct[OF 2 d])
qed

declare hMinimax.simps [simp del]

lemma hMinimax_sim:
  shows "distinct (gridsH h (o_board (objsH h c))) \<Longrightarrow> wf (absBoard h c) \<Longrightarrow>
           fst (hMinimax h ai c depth isMaximizing alpha beta) =
             fst (minimax ai (absBoard h c) depth isMaximizing alpha beta) \<and>
           absBoard (snd (hMinimax h ai c depth isMaximizing alpha beta)) c = absBoard h c \<and>
           writesOnly c h (snd (hMinimax h ai c depth isMaximizing alpha beta))"
    and "distinct (gridsH h (o_board (objsH h c))) \<Longrightarrow> wf (absBoard h c) \<Longrightarrow>
           \<forall>cell\<in>set cells. emptyIn (absBoard h c) cell \<Longrightarrow>
           fst (hMaxLoop h ai cells c depth alpha beta maxScore) =
             fst (maxLoop ai cells (absBoard h c) depth alpha beta maxScore) \<and>
           absBoard (snd (hMaxLoop h ai cells c depth alpha beta maxScore)) c = absBoard h c \<and>
           writesOnly c h (snd (hMaxLoop h ai cells c depth alpha beta maxScore))"
    and "distinct (gridsH h (o_board (objsH h c))) \<Longrightarrow> wf (absBoard h c) \<Longrightarrow>
           \<forall>cell\<in>set cells. emptyIn (absBoard h c) cell \<Longrightarrow>
           fst (hMinLoop h ai cells c depth alpha beta minScore) =
             fst (minLoop ai cells (absBoard h c) depth alpha beta minScore) \<and>
           absBoard (snd (hMinLoop h ai cells c depth alpha beta minScore)) c = absBoard h c \<and>
           writesOnly c h (snd (hMinLoop h ai cells c depth alpha beta minScore))"
proof (induction h ai c depth isMaximizing alpha beta
         and h ai cells c depth alpha beta maxScore
         and h ai cells c depth alpha beta minScore
       rule: hMinimax_hMaxLoop_hMinLoop.induct)
  case (1 h ai b depth isMaximizing alpha beta)
  show ?case
  proof (cases "checkWin (absBoard h b) (marker ai) \<or> checkWin (absBoard h b) (opponentMarker ai) \<or>
                checkDraw (absBoard h b) \<or> maxDepth ai \<le> depth")
    case True
    then show ?thesis by (auto simp: hMinimax.simps minimax.simps writesOnly_refl)
  next
    case False
    then have c: "\<not> checkWin (absBoard h b) (marker ai)" "\<not> checkWin (absBoard h b) (opponentMarker ai)"
      "\<not> (checkDraw (absBoard h b) \<or> maxDepth ai \<le> depth)" by simp_all
    have e: "\<forall>cell\<in>set (getEmptyCells (absBoard h b)). emptyIn (absBoard h b) cell"
      by (simp add: getEmptyCells_iff)
    show ?thesis
    proof (cases isMaximizing)
      case True
      from "1.IH"(1)[OF c True "1.prems" e] show ?thesis
        using c True by (simp add: hMinimax.simps minimax.simps)
    next
      case False
      from "1.IH"(2)[OF c False "1.prems" e] show ?thesis
        using c False by (simp add: hMinimax.simps minimax.simps)
    qed
  qed
next
  case (2 h ai b depth alpha beta maxScore)
  show ?case by (simp add: writesOnly_refl)
next
  case (3 h ai cell cells c depth alpha beta maxScore)
  let ?b = "absBoard h c"
  let ?h1 = "snd (hPlaceMarker h c (int (row cell)) (int (col cell)) (marker ai))"
  let ?b1 = "snd (placeMarker ?b (int (row cell)) (int (col cell)) (marker ai))"
  let ?hres = "hMinimax ?h1 ai c (Suc depth) False alpha beta"
  let ?res = "minimax ai ?b1 (Suc depth) False alpha beta"
  let ?h3 = "snd (hUndoMove (snd ?hres) c)"
  have d: "distinct (gridsH h (o_board (objsH h c)))" and w: "wf ?b" using "3.prems" by simp_all
  have e: "emptyIn ?b cell" and es: "\<forall>cell\<in>set cells. emptyIn ?b cell" using "3.prems" by simp_all
  note p = hStep_place[OF d w, of "int (row cell)" "int (col cell)" "marker ai"]
  have ih1: "fst ?hres = fst (minimax ai (absBoard ?h1 c) (Suc depth) False alpha beta) \<and>
             absBoard (snd ?hres) c = absBoard ?h1 c \<and> writesOnly c ?h1 (snd ?hres)"
    using "3.IH"(1)[OF refl p(3) p(4)] by simp
  have s: "fst ?hres = fst ?res" using ih1 p(1) by simp
  have a2: "absBoard (snd ?hres) c = ?b1" using ih1 p(1) by simp
  have wo2: "writesOnly c h (snd ?hres)" using writesOnly_trans[OF p(2)] ih1 by blast
  note q = hStep_undo[OF d w e a2 wo2]
  have r1: "snd ?res = ?b1" by (rule minimax_restores(1)[OF wf_place[OF w]])
  have u: "snd (undoMove ?b1) = ?b" by (rule place_undo_empty[OF w e])
  show ?case
  proof (cases "jsLe beta (jsMax alpha (fst ?res))")
    case True
    then show ?thesis using q by (simp add: Let_def s r1 u)
  next
    case False
    have F: "\<not> jsLe beta (jsMax alpha (fst (hMinimax ?h1 ai c (depth + 1) False alpha beta)))"
      using False s by simp
    have es3: "\<forall>cell\<in>set cells. emptyIn (absBoard ?h3 c) cell" using es q(1) by simp
    have w3: "wf (absBoard ?h3 c)" using w q(1) by simp
    have q3: "distinct (gridsH ?h3 (o_board (objsH ?h3 c)))" by (rule q(3))
    have ih2: "fst (hMaxLoop ?h3 ai cells c depth (jsMax alpha (fst ?hres)) beta (jsMax maxScore (fst ?hres))) =
               fst (maxLoop ai cells (absBoard ?h3 c) depth (jsMax alpha (fst ?hres)) beta (jsMax maxScore (fst ?hres))) \<and>
               absBoard (snd (hMaxLoop ?h3 ai cells c depth (jsMax alpha (fst ?hres)) beta (jsMax maxScore (fst ?hres)))) c =
                 absBoard ?h3 c \<and>
               writesOnly c ?h3 (snd (hMaxLoop ?h3 ai cells c depth (jsMax alpha (fst ?hres)) beta (jsMax maxScore (fst ?hres))))"
      using "3.IH"(2)[OF refl refl refl refl refl F] q3 w3 es3 by simp
    have hl: "hMaxLoop h ai (cell # cells) c depth alpha beta maxScore =
              hMaxLoop ?h3 ai cells c depth (jsMax alpha (fst ?hres)) beta (jsMax maxScore (fst ?hres))"
      using False s by (simp add: Let_def)
    have vl: "maxLoop ai (cell # cells) ?b depth alpha beta maxScore =
              maxLoop ai cells ?b depth (jsMax alpha (fst ?res)) beta (jsMax maxScore (fst ?res))"
      using False by (simp add: Let_def r1 u)
    show ?thesis
      unfolding hl vl using ih2 q(1) writesOnly_trans[OF q(2)] by (simp add: s)
  qed
next
  case (4 h ai b depth alpha beta minScore)
  show ?case by (simp add: writesOnly_refl)
next
  case (5 h ai cell cells c depth alpha beta minScore)
  let ?b = "absBoard h c"
  let ?h1 = "snd (hPlaceMarker h c (int (row cell)) (int (col cell)) (opponentMarker ai))"
  let ?b1 = "snd (placeMarker ?b (int (row cell)) (int (col cell)) (opponentMarker ai))"
  let ?hres = "hMinimax ?h1 ai c (Suc depth) True alpha beta"
  let ?res = "minimax ai ?b1 (Suc depth) True alpha beta"
  let ?h3 = "snd (hUndoMove (snd ?hres) c)"
  have d: "distinct (gridsH h (o_board (objsH h c)))" and w: "wf ?b" using "5.prems" by simp_all
  have e: "emptyIn ?b cell" and es: "\<forall>cell\<in>set cells. emptyIn ?b cell" using "5.prems" by simp_all
  note p = hStep_place[OF d w, of "int (row cell)" "int (col cell)" "opponentMarker ai"]
  have ih1: "fst ?hres = fst (minimax ai (absBoard ?h1 c) (Suc depth) True alpha beta) \<and>
             absBoard (snd ?hres) c = absBoard ?h1 c \<and> writesOnly c ?h1 (snd ?hres)"
    using "5.IH"(1)[OF refl p(3) p(4)] by simp
  have s: "fst ?hres = fst ?res" using ih1 p(1) by simp
  have a2: "absBoard (snd ?hres) c = ?b1" using ih1 p(1) by simp
  have wo2: "writesOnly c h (snd ?hres)" using writesOnly_trans[OF p(2)] ih1 by blast
  note q = hStep_undo[OF d w e a2 wo2]
  have r1: "snd ?res = ?b1" by (rule minimax_restores(1)[OF wf_place[OF w]])
  have u: "snd (undoMove ?b1) = ?b" by (rule place_undo_empty[OF w e])
  show ?case
  proof (cases "jsLe (jsMin beta (fst ?res)) alpha")
    case True
    then show ?thesis using q by (simp add: Let_def s r1 u)
  next
    case False
    have F: "\<not> jsLe (jsMin beta (fst (hMinimax ?h1 ai c (depth + 1) True alpha beta))) alpha"
      using False s by simp
    have es3: "\<forall>cell\<in>set cells. emptyIn (absBoard ?h3 c) cell" using es q(1) by simp
    have w3: "wf (absBoard ?h3 c)" using w q(1) by simp
    have q3: "distinct (gridsH ?h3 (o_board (objsH ?h3 c)))" by (rule q(3))
    have ih2: "fst (hMinLoop ?h3 ai cells c depth alpha (jsMin beta (fst ?hres)) (jsMin minScore (fst ?hres))) =
               fst (minLoop ai cells (absBoard ?h3 c) depth alpha (jsMin beta (fst ?hres)) (jsMin minScore (fst ?hres))) \<and>
               absBoard (snd (hMinLoop ?h3 ai cells c depth alpha (jsMin beta (fst ?hres)) (jsMin minScore (fst ?hres)))) c =
                 absBoard ?h3 c \<and>
               writesOnly c ?h3 (snd (hMinLoop ?h3 ai cells c depth alpha (jsMin beta (fst ?hres)) (jsMin minScore (fst ?hres))))"
      using "5.IH"(2)[OF refl refl refl refl refl F] q3 w3 es3 by simp
    have hl: "hMinLoop h ai (cell # cells) c depth alpha beta minScore =
              hMinLoop ?h3 ai cells c depth alpha (jsMin beta (fst ?hres)) (jsMin minScore (fst ?hres))"
      using False s by (simp add: Let_def)
    have vl: "minLoop ai (cell # cells) ?b depth alpha beta minScore =
              minLoop ai cells ?b depth alpha (jsMin beta (fst ?res)) (jsMin minScore (fst ?res))"
      using False by (simp add: Let_def r1 u)
    show ?thesis
      unfolding hl vl using ih2 q(1) writesOnly_trans[OF q(2)] by (simp add: s)
  qed
qed

lemma sameBelow_refl: "sameBelow n h h"
  by (simp add: sameBelow_def)

lemma sameBelow_trans: "sameBelow n h h1 \<Longrightarrow> sameBelow n h1 h2 \<Longrightarrow> sameBelow n h h2"
  by (simp add: sameBelow_def)

lemma sameBelow_mono: "sameBelow n h h' \<Longrightarrow> m \<le> n \<Longrightarrow> sameBelow m h h'"
  by (simp add: sameBelow_def)

lemma sameBelow_abs:
  assumes "allocated h b" "sameBelow (nextH h) h h'"
  shows "absBoard h' b = absBoard h b"
proof -
  have o: "objsH h' b = objsH h b" using assms by (simp add: allocated_def sameBelow_def)
  have g: "gridsH h' (o_board (objsH h b)) = gridsH h (o_board (objsH h b))"
    using assms by (simp add: allocated_def sameBelow_def)
  have r: "map (rowsH h') (gridsH h (o_board (objsH h b))) = map (rowsH h) (gridsH h (o_board (objsH h b)))"
    using assms by (simp add: allocated_def sameBelow_def)
  have m: "histsH h' (o_moveHistory (objsH h b)) = histsH h (o_moveHistory (objsH h b))"
    using assms by (simp add: allocated_def sameBelow_def)
  show ?thesis by (simp add: absBoard_def o g r m)
qed

lemma sameBelow_allocated:
  assumes "allocated h b" "sameBelow (nextH h) h h'" "nextH h \<le> nextH h'"
  shows "allocated h' b"
proof -
  have o: "objsH h' b = objsH h b" using assms by (simp add: allocated_def sameBelow_def)
  have g: "gridsH h' (o_board (objsH h b)) = gridsH h (o_board (objsH h b))"
    using assms by (simp add: allocated_def sameBelow_def)
  show ?thesis using assms(1,3) unfolding allocated_def o g by fastforce
qed

lemma writesOnly_sameBelow:
  assumes "ownedAbove n h c" "writesOnly c h h'"
  shows "sameBelow n h h'"
  using assms unfolding ownedAbove_def writesOnly_def sameBelow_def
  by (metis leD)

lemma ext_refl: "ext h h"
  by (simp add: ext_def sameBelow_refl)

lemma ext_trans: "ext h h1 \<Longrightarrow> ext h1 h2 \<Longrightarrow> ext h h2"
  unfolding ext_def using sameBelow_mono sameBelow_trans by (meson order_trans)

lemma allocRows_facts:
  shows "fst (allocRows h rs) = [nextH h ..< nextH h + length rs]"
    and "nextH (snd (allocRows h rs)) = nextH h + length rs"
    and "objsH (snd (allocRows h rs)) = objsH h"
    and "gridsH (snd (allocRows h rs)) = gridsH h"
    and "histsH (snd (allocRows h rs)) = histsH h"
    and "ext h (snd (allocRows h rs))"
  by (simp_all add: allocRows_def ext_def sameBelow_def)

lemma allocRows_content:
  "map (rowsH (snd (allocRows h rs))) (fst (allocRows h rs)) = rs"
proof (rule nth_equalityI)
  show "length (map (rowsH (snd (allocRows h rs))) (fst (allocRows h rs))) = length rs"
    by (simp add: allocRows_def)
next
  fix i
  assume "i < length (map (rowsH (snd (allocRows h rs))) (fst (allocRows h rs)))"
  then have "i < length rs" by (simp add: allocRows_def)
  then show "map (rowsH (snd (allocRows h rs))) (fst (allocRows h rs)) ! i = rs ! i"
    by (simp add: allocRows_def)
qed

lemma allocGrid_facts:
  shows "fst (allocGrid h g) = nextH h"
    and "nextH (snd (allocGrid h g)) = Suc (nextH h)"
    and "objsH (snd (allocGrid h g)) = objsH h"
    and "rowsH (snd (allocGrid h g)) = rowsH h"
    and "histsH (snd (allocGrid h g)) = histsH h"
    and "gridsH (snd (allocGrid h g)) (nextH h) = g"
    and "ext h (snd (allocGrid h g))"
  by (simp_all add: allocGrid_def ext_def sameBelow_def)

lemma allocHist_facts:
  shows "fst (allocHist h ms) = nextH h"
    and "nextH (snd (allocHist h ms)) = Suc (nextH h)"
    and "objsH (snd (allocHist h ms)) = objsH h"
    and "rowsH (snd (allocHist h ms)) = rowsH h"
    and "gridsH (snd (allocHist h ms)) = gridsH h"
    and "histsH (snd (allocHist h ms)) (nextH h) = ms"
    and "ext h (snd (allocHist h ms))"
  by (simp_all add: allocHist_def ext_def sameBelow_def)

lemma allocObj_facts:
  shows "fst (allocObj h ob) = nextH h"
    and "nextH (snd (allocObj h ob)) = Suc (nextH h)"
    and "gridsH (snd (allocObj h ob)) = gridsH h"
    and "rowsH (snd (allocObj h ob)) = rowsH h"
    and "histsH (snd (allocObj h ob)) = histsH h"
    and "objsH (snd (allocObj h ob)) (nextH h) = ob"
    and "ext h (snd (allocObj h ob))"
  by (simp_all add: allocObj_def ext_def sameBelow_def)

lemma ext_reads:
  assumes "allocated h b" "ext h h'"
  shows "objsH h' b = objsH h b"
    and "gridsH h' (o_board (objsH h b)) = gridsH h (o_board (objsH h b))"
    and "map (rowsH h') (gridsH h (o_board (objsH h b))) = map (rowsH h) (gridsH h (o_board (objsH h b)))"
    and "histsH h' (o_moveHistory (objsH h b)) = histsH h (o_moveHistory (objsH h b))"
  using assms by (simp_all add: allocated_def ext_def sameBelow_def)

lemma hClone_props:
  assumes a: "allocated h b"
  shows "sameBelow (nextH h) h (snd (hClone h b))"
    and "absBoard (snd (hClone h b)) (fst (hClone h b)) = absBoard h b"
    and "ownedAbove (nextH h) (snd (hClone h b)) (fst (hClone h b))"
    and "nextH h \<le> nextH (snd (hClone h b))"
proof -
  let ?s = "o_size (objsH h b)"
  let ?G = "gridsH h (o_board (objsH h b))"
  define h1 where "h1 = snd (allocRows h (replicate ?s (replicate ?s EMPTY)))"
  define rs1 where "rs1 = fst (allocRows h (replicate ?s (replicate ?s EMPTY)))"
  define h2 where "h2 = snd (allocGrid h1 rs1)"
  define g1 where "g1 = fst (allocGrid h1 rs1)"
  define h3 where "h3 = snd (allocHist h2 [])"
  define m1 where "m1 = fst (allocHist h2 [])"
  define ob1 where "ob1 = \<lparr>o_size = ?s, o_winLength = o_winLength (objsH h b), o_board = g1,
                           o_moveHistory = m1, o_currentPlayer = ''O''\<rparr>"
  define h4 where "h4 = snd (allocObj h3 ob1)"
  define nb where "nb = fst (allocObj h3 ob1)"
  define h5 where "h5 = snd (allocRows h4 (map (rowsH h4) (gridsH h4 (o_board (objsH h4 b)))))"
  define rs2 where "rs2 = fst (allocRows h4 (map (rowsH h4) (gridsH h4 (o_board (objsH h4 b)))))"
  define h6 where "h6 = snd (allocGrid h5 rs2)"
  define g2 where "g2 = fst (allocGrid h5 rs2)"
  define h7 where "h7 = snd (allocHist h6 (histsH h6 (o_moveHistory (objsH h6 b))))"
  define m2 where "m2 = fst (allocHist h6 (histsH h6 (o_moveHistory (objsH h6 b))))"
  define h8 where "h8 = h7\<lparr>objsH := (objsH h7)
                   (nb := (objsH h7 nb)\<lparr>o_board := g2, o_moveHistory := m2,
                                          o_currentPlayer := o_currentPlayer (objsH h7 b)\<rparr>)\<rparr>"
  have nw: "hNewBoard h ?s (o_winLength (objsH h b)) = (nb, h4)"
    by (simp add: hNewBoard_def Let_def case_prod_beta h1_def rs1_def h2_def g1_def h3_def m1_def
        ob1_def h4_def nb_def)
  have c: "hClone h b = (nb, h8)"
    unfolding hClone_def nw by (simp add: Let_def case_prod_beta h5_def rs2_def h6_def g2_def h7_def m2_def h8_def)
  have e1: "ext h h1" unfolding h1_def by (rule allocRows_facts(6))
  have e2: "ext h1 h2" unfolding h2_def by (rule allocGrid_facts(7))
  have e3: "ext h2 h3" unfolding h3_def by (rule allocHist_facts(7))
  have e4: "ext h3 h4" unfolding h4_def by (rule allocObj_facts(7))
  have e5: "ext h4 h5" unfolding h5_def by (rule allocRows_facts(6))
  have e6: "ext h5 h6" unfolding h6_def by (rule allocGrid_facts(7))
  have e7: "ext h6 h7" unfolding h7_def by (rule allocHist_facts(7))
  have x4: "ext h h4" using e1 e2 e3 e4 ext_trans by blast
  have x5: "ext h h5" using x4 e5 ext_trans by blast
  have x6: "ext h h6" using x5 e6 ext_trans by blast
  have x7: "ext h h7" using x6 e7 ext_trans by blast
  have n3: "nextH h \<le> nextH h3" using e1 e2 e3 ext_trans[of h h1 h3] ext_trans[of h1 h2 h3]
    by (simp add: ext_def)
  have n4: "nextH h \<le> nextH h4" using x4 by (simp add: ext_def)
  have n5: "nextH h \<le> nextH h5" using x5 by (simp add: ext_def)
  have n6: "nextH h \<le> nextH h6" using x6 by (simp add: ext_def)
  have n7: "nextH h \<le> nextH h7" using x7 by (simp add: ext_def)
  have nb: "nb = nextH h3" unfolding nb_def by (rule allocObj_facts(1))
  have nb4: "nb < nextH h4" unfolding nb h4_def by (simp add: allocObj_facts(2))
  have g2: "g2 = nextH h5" unfolding g2_def by (rule allocGrid_facts(1))
  have m2: "m2 = nextH h6" unfolding m2_def by (rule allocHist_facts(1))
  have rs2: "rs2 = [nextH h4 ..< nextH h4 + length (gridsH h4 (o_board (objsH h4 b)))]"
    unfolding rs2_def by (simp add: allocRows_facts(1))
  have bn: "b < nextH h" using a by (simp add: allocated_def)
  have bnb: "b \<noteq> nb" using bn n3 nb by simp
  show "nextH h \<le> nextH (snd (hClone h b))" unfolding c using n7 by (simp add: h8_def)
  have s78: "sameBelow (nextH h) h7 h8"
    using n3 nb by (simp add: sameBelow_def h8_def)
  show "sameBelow (nextH h) h (snd (hClone h b))"
    unfolding c using x7 s78 sameBelow_trans by (auto simp: ext_def)
  have o8: "objsH h8 nb = (objsH h7 nb)\<lparr>o_board := g2, o_moveHistory := m2,
                                          o_currentPlayer := o_currentPlayer (objsH h7 b)\<rparr>"
    by (simp add: h8_def)
  have gr8: "gridsH h8 g2 = rs2"
  proof -
    have "gridsH h8 g2 = gridsH h6 g2" by (simp add: h8_def h7_def allocHist_facts(5))
    also have "\<dots> = rs2" unfolding g2 h6_def by (rule allocGrid_facts(6))
    finally show ?thesis .
  qed
  have ob8: "o_board (objsH h8 nb) = g2" "o_moveHistory (objsH h8 nb) = m2"
    by (simp_all add: o8)
  have f1: "nextH h \<le> nb" "nextH h \<le> g2" "nextH h \<le> m2"
    using n3 n5 n6 by (simp_all add: nb g2 m2)
  have f2: "\<forall>r\<in>set rs2. nextH h \<le> r" using n4 by (simp add: rs2)
  have f3: "distinct rs2" by (simp add: rs2)
  show "ownedAbove (nextH h) (snd (hClone h b)) (fst (hClone h b))"
    unfolding c ownedAbove_def fst_conv snd_conv ob8 gr8 using f1 f2 f3 by blast
  have o7: "objsH h7 nb = ob1"
  proof -
    have "objsH h7 nb = objsH h4 nb"
      by (simp add: h7_def h6_def h5_def allocHist_facts(3) allocGrid_facts(3) allocRows_facts(3))
    also have "\<dots> = ob1" unfolding nb h4_def by (rule allocObj_facts(6))
    finally show ?thesis .
  qed
  have rows8: "map (rowsH h8) rs2 = map (rowsH h) ?G"
  proof -
    have "rowsH h8 = rowsH h5"
      by (simp add: h8_def h7_def h6_def allocHist_facts(4) allocGrid_facts(4))
    then have "map (rowsH h8) rs2 = map (rowsH h4) (gridsH h4 (o_board (objsH h4 b)))"
      unfolding h5_def rs2_def by (simp add: allocRows_content)
    also have "\<dots> = map (rowsH h) ?G"
      using ext_reads[OF a x4] by simp
    finally show ?thesis .
  qed
  have hist8: "histsH h8 m2 = histsH h (o_moveHistory (objsH h b))"
  proof -
    have "histsH h8 m2 = histsH h7 m2" by (simp add: h8_def)
    also have "\<dots> = histsH h6 (o_moveHistory (objsH h6 b))"
      unfolding m2 h7_def by (rule allocHist_facts(6))
    also have "\<dots> = histsH h (o_moveHistory (objsH h b))"
      using ext_reads[OF a x6] by simp
    finally show ?thesis .
  qed
  have cp: "o_currentPlayer (objsH h7 b) = o_currentPlayer (objsH h b)"
    using ext_reads(1)[OF a x7] by simp
  show "absBoard (snd (hClone h b)) (fst (hClone h b)) = absBoard h b"
    unfolding c by (simp add: absBoard_def o8 o7 gr8 rows8 hist8 cp) (simp add: ob1_def)
qed

lemma hWinScan_sim:
  assumes w: "wf b0"
  shows "distinct (gridsH h (o_board (objsH h c))) \<Longrightarrow> absBoard h c = b0 \<Longrightarrow>
         \<forall>cell\<in>set cells. emptyIn b0 cell \<Longrightarrow>
         fst (hWinScan h m cells c) = fst (winScan m cells b0) \<and>
         absBoard (snd (hWinScan h m cells c)) c = snd (winScan m cells b0) \<and>
         writesOnly c h (snd (hWinScan h m cells c))"
proof (induction cells arbitrary: h)
  case Nil
  then show ?case by (simp add: writesOnly_refl)
next
  case (Cons cell cells)
  let ?h1 = "snd (hPlaceMarker h c (int (row cell)) (int (col cell)) m)"
  let ?b1 = "snd (placeMarker b0 (int (row cell)) (int (col cell)) m)"
  let ?h3 = "snd (hUndoMove ?h1 c)"
  have d: "distinct (gridsH h (o_board (objsH h c)))" and a: "absBoard h c = b0" using Cons.prems by simp_all
  have wh: "wf (absBoard h c)" using w a by simp
  have e: "emptyIn (absBoard h c) cell" and es: "\<forall>cell\<in>set cells. emptyIn b0 cell"
    using Cons.prems a by simp_all
  note p = hStep_place[OF d wh, of "int (row cell)" "int (col cell)" m]
  have a1: "absBoard ?h1 c = ?b1" using p(1) a by simp
  have a1': "absBoard ?h1 c = snd (placeMarker (absBoard h c) (int (row cell)) (int (col cell)) m)"
    using p(1) .
  note q = hStep_undo[OF d wh e a1' p(2)]
  have u: "snd (undoMove ?b1) = b0" using place_undo_empty[OF wh e, of m] a by simp
  show ?case
  proof (cases "checkWin ?b1 m")
    case True
    then show ?thesis using p(2) a1 by (simp add: Let_def)
  next
    case False
    have a3: "absBoard ?h3 c = b0" using q(1) a by simp
    from Cons.IH[OF q(3) a3 es]
    have ih: "fst (hWinScan ?h3 m cells c) = fst (winScan m cells b0) \<and>
              absBoard (snd (hWinScan ?h3 m cells c)) c = snd (winScan m cells b0) \<and>
              writesOnly c ?h3 (snd (hWinScan ?h3 m cells c))" .
    have hl: "hWinScan h m (cell # cells) c = hWinScan ?h3 m cells c"
      using False a1 by (simp add: Let_def)
    have vl: "winScan m (cell # cells) b0 = winScan m cells b0"
      using False u by (simp add: Let_def)
    show ?thesis unfolding hl vl using ih writesOnly_trans[OF q(2)] by blast
  qed
qed

lemma hBestLoop_sim:
  assumes w: "wf b0"
  shows "distinct (gridsH h (o_board (objsH h c))) \<Longrightarrow> absBoard h c = b0 \<Longrightarrow>
         \<forall>cell\<in>set cells. emptyIn b0 cell \<Longrightarrow>
         fst (hBestLoop h ai cells c bestScore bestMove) = fst (bestLoop ai cells b0 bestScore bestMove) \<and>
         writesOnly c h (snd (hBestLoop h ai cells c bestScore bestMove))"
proof (induction cells arbitrary: h bestScore bestMove)
  case Nil
  then show ?case by (simp add: writesOnly_refl)
next
  case (Cons cell cells)
  let ?h1 = "snd (hPlaceMarker h c (int (row cell)) (int (col cell)) (marker ai))"
  let ?b1 = "snd (placeMarker b0 (int (row cell)) (int (col cell)) (marker ai))"
  let ?hres = "hMinimax ?h1 ai c 0 False (Num NegInf) (Num PosInf)"
  let ?res = "minimax ai ?b1 0 False (Num NegInf) (Num PosInf)"
  let ?h3 = "snd (hUndoMove (snd ?hres) c)"
  have d: "distinct (gridsH h (o_board (objsH h c)))" and a: "absBoard h c = b0" using Cons.prems by simp_all
  have wh: "wf (absBoard h c)" using w a by simp
  have e: "emptyIn (absBoard h c) cell" and es: "\<forall>cell\<in>set cells. emptyIn b0 cell"
    using Cons.prems a by simp_all
  note p = hStep_place[OF d wh, of "int (row cell)" "int (col cell)" "marker ai"]
  note sim = hMinimax_sim(1)[OF p(3) p(4), of ai 0 False "Num NegInf" "Num PosInf"]
  have s: "fst ?hres = fst ?res" using sim p(1) a by simp
  have a2: "absBoard (snd ?hres) c =
            snd (placeMarker (absBoard h c) (int (row cell)) (int (col cell)) (marker ai))"
    using sim p(1) by simp
  have wo2: "writesOnly c h (snd ?hres)" using writesOnly_trans[OF p(2)] sim by blast
  note q = hStep_undo[OF d wh e a2 wo2]
  have r1: "snd ?res = ?b1" by (rule minimax_restores(1)[OF wf_place[OF w]])
  have u: "snd (undoMove ?b1) = b0" using place_undo_empty[OF wh e, of "marker ai"] a by simp
  have a3: "absBoard ?h3 c = b0" using q(1) a by simp
  note ih = Cons.IH[OF q(3) a3 es]
  show ?case
  proof (cases "jsGt (fst ?res) bestScore")
    case True
    have hl: "hBestLoop h ai (cell # cells) c bestScore bestMove =
              hBestLoop ?h3 ai cells c (fst ?res) (Some cell)"
      using True s by (simp add: Let_def)
    have vl: "bestLoop ai (cell # cells) b0 bestScore bestMove =
              bestLoop ai cells b0 (fst ?res) (Some cell)"
      using True by (simp add: Let_def r1 u)
    show ?thesis unfolding hl vl using ih[of "fst ?res" "Some cell"] writesOnly_trans[OF q(2)] by blast
  next
    case False
    have hl: "hBestLoop h ai (cell # cells) c bestScore bestMove =
              hBestLoop ?h3 ai cells c bestScore bestMove"
      using False s by (simp add: Let_def)
    have vl: "bestLoop ai (cell # cells) b0 bestScore bestMove =
              bestLoop ai cells b0 bestScore bestMove"
      using False by (simp add: Let_def r1 u)
    show ?thesis unfolding hl vl using ih[of bestScore bestMove] writesOnly_trans[OF q(2)] by blast
  qed
qed

lemma writesOnly_owned:
  "writesOnly c h h' \<Longrightarrow> ownedAbove n h c \<Longrightarrow> ownedAbove n h' c"
  by (simp add: writesOnly_def ownedAbove_def)

lemma hMakeMediumMove_frame:
  assumes a: "allocated h b" and w: "wf (absBoard h b)"
  shows "fst (hMakeMediumMove h ai u b) = makeMediumMove ai u (absBoard h b)"
    and "sameBelow (nextH h) h (snd (hMakeMediumMove h ai u b))"
    and "nextH h \<le> nextH (snd (hMakeMediumMove h ai u b))"
proof -
  let ?B = "absBoard h b"
  define c where "c = fst (hClone h b)"
  define h0 where "h0 = snd (hClone h b)"
  define cells where "cells = getEmptyCells ?B"
  note cl = hClone_props[OF a, folded c_def h0_def]
  have d0: "distinct (gridsH h0 (o_board (objsH h0 c)))" using cl(3) by (simp add: ownedAbove_def)
  have es: "\<forall>cell\<in>set cells. emptyIn ?B cell" by (simp add: cells_def getEmptyCells_iff)
  define r1 where "r1 = hWinScan h0 (marker ai) cells c"
  note s1 = hWinScan_sim[OF w d0 cl(2) es, of "marker ai", folded r1_def]
  have sb1: "sameBelow (nextH h) h (snd r1)"
    using writesOnly_sameBelow[OF cl(3)] s1 sameBelow_trans[OF cl(1)] by blast
  have n1: "nextH h \<le> nextH (snd r1)" using s1 cl(4) by (simp add: writesOnly_def)
  define r2 where "r2 = hWinScan (snd r1) (opponentMarker ai) cells c"
  have u: "hMakeMediumMove h ai u b =
     (case fst r1 of
        Some cell \<Rightarrow> (Some cell, snd r1)
      | None \<Rightarrow>
          (case fst r2 of
             Some cell \<Rightarrow> (Some cell, snd r2)
           | None \<Rightarrow>
               (let center = sizeB (absBoard (snd r2) b) div 2 in
                if board (absBoard (snd r2) b) ! center ! center = EMPTY
                  then (Some \<lparr>row = center, col = center\<rparr>, snd r2)
                else (case find (\<lambda>corner. board (absBoard (snd r2) b) ! row corner ! col corner = EMPTY)
                             (corners (absBoard (snd r2) b)) of
                        Some corner \<Rightarrow> (Some corner, snd r2)
                      | None \<Rightarrow> hMakeRandomMove (snd r2) u b))))"
    unfolding hMakeMediumMove_def r1_def r2_def cells_def c_def h0_def
    by (simp add: case_prod_beta Let_def cl(2)[unfolded c_def h0_def] split: option.splits)
  have v: "makeMediumMove ai u ?B =
     (case winScan (marker ai) cells ?B of
        (Some cell, bc1) \<Rightarrow> Some cell
      | (None, bc1) \<Rightarrow>
          (case winScan (opponentMarker ai) cells bc1 of
             (Some cell, bc2) \<Rightarrow> Some cell
           | (None, bc2) \<Rightarrow>
               (let center = sizeB ?B div 2 in
                if board ?B ! center ! center = EMPTY then Some \<lparr>row = center, col = center\<rparr>
                else (case find (\<lambda>corner. board ?B ! row corner ! col corner = EMPTY) (corners ?B) of
                        Some corner \<Rightarrow> Some corner
                      | None \<Rightarrow> makeRandomMove u ?B))))"
    unfolding makeMediumMove_def clone_id cells_def by (simp add: Let_def)
  show "fst (hMakeMediumMove h ai u b) = makeMediumMove ai u (absBoard h b)"
    and "sameBelow (nextH h) h (snd (hMakeMediumMove h ai u b))"
    and "nextH h \<le> nextH (snd (hMakeMediumMove h ai u b))"
  proof (atomize (full), cases "fst r1")
    case (Some cell)
    then have "hMakeMediumMove h ai u b = (Some cell, snd r1)"
      unfolding u by simp
    moreover have "makeMediumMove ai u ?B = Some cell"
      unfolding v using Some s1 by (cases "winScan (marker ai) cells ?B") simp
    ultimately show "fst (hMakeMediumMove h ai u b) = makeMediumMove ai u (absBoard h b) \<and>
      sameBelow (nextH h) h (snd (hMakeMediumMove h ai u b)) \<and>
      nextH h \<le> nextH (snd (hMakeMediumMove h ai u b))"
      using sb1 n1 by simp
  next
    case None
    have f1: "fst (winScan (marker ai) cells ?B) = None" using None s1 by simp
    have b1: "snd (winScan (marker ai) cells ?B) = ?B"
      using f1 unfolding winScan_find[OF w es] by (simp split: option.splits)
    have a1: "absBoard (snd r1) c = ?B" using s1 b1 by simp
    have d1: "distinct (gridsH (snd r1) (o_board (objsH (snd r1) c)))"
      using writesOnly_distinct[OF _ d0] s1 by blast
    note s2 = hWinScan_sim[OF w d1 a1 es, of "opponentMarker ai", folded r2_def]
    have o1: "ownedAbove (nextH h) (snd r1) c" using writesOnly_owned[OF _ cl(3)] s1 by blast
    have sb2: "sameBelow (nextH h) h (snd r2)"
      using writesOnly_sameBelow[OF o1] s2 sameBelow_trans[OF sb1] by blast
    have n2: "nextH h \<le> nextH (snd r2)" using s2 n1 by (simp add: writesOnly_def)
    have ab2: "absBoard (snd r2) b = ?B" by (rule sameBelow_abs[OF a sb2])
    show "fst (hMakeMediumMove h ai u b) = makeMediumMove ai u (absBoard h b) \<and>
      sameBelow (nextH h) h (snd (hMakeMediumMove h ai u b)) \<and>
      nextH h \<le> nextH (snd (hMakeMediumMove h ai u b))"
    proof (cases "fst r2")
      case (Some cell)
      then have "hMakeMediumMove h ai u b = (Some cell, snd r2)"
        unfolding u using None by simp
      moreover have "makeMediumMove ai u ?B = Some cell"
        unfolding v using f1 b1 Some s2
        by (cases "winScan (marker ai) cells ?B"; cases "winScan (opponentMarker ai) cells ?B") simp
      ultimately show ?thesis using sb2 n2 by simp
    next
      case N2: None
      have f2: "fst (winScan (opponentMarker ai) cells ?B) = None" using N2 s2 by simp
      define rest where "rest =
         (let center = sizeB ?B div 2 in
                if board ?B ! center ! center = EMPTY then Some \<lparr>row = center, col = center\<rparr>
                else (case find (\<lambda>corner. board ?B ! row corner ! col corner = EMPTY) (corners ?B) of
                        Some corner \<Rightarrow> Some corner
                      | None \<Rightarrow> makeRandomMove u ?B))"
      have hv1: "fst (hMakeMediumMove h ai u b) = rest"
        unfolding u rest_def
        by (simp add: None N2 ab2 Let_def hMakeRandomMove_def split: option.splits)
      have hv2: "snd (hMakeMediumMove h ai u b) = snd r2"
        unfolding u
        by (simp add: None N2 ab2 Let_def hMakeRandomMove_def split: option.splits)
      have vv: "makeMediumMove ai u ?B = rest"
        unfolding v rest_def using f1 b1 f2
        by (cases "winScan (marker ai) cells ?B"; cases "winScan (opponentMarker ai) cells ?B") simp
      show ?thesis using hv1 hv2 vv sb2 n2 by simp
    qed
  qed
qed

lemma hMakeMinimaxMove_frame:
  assumes a: "allocated h b" and w: "wf (absBoard h b)"
  shows "fst (hMakeMinimaxMove h ai u b) = makeMinimaxMove ai u (absBoard h b) \<and>
         sameBelow (nextH h) h (snd (hMakeMinimaxMove h ai u b))"
proof -
  let ?B = "absBoard h b"
  define c where "c = fst (hClone h b)"
  define h0 where "h0 = snd (hClone h b)"
  define cells where "cells = getEmptyCells ?B"
  note cl = hClone_props[OF a, folded c_def h0_def]
  have d0: "distinct (gridsH h0 (o_board (objsH h0 c)))" using cl(3) by (simp add: ownedAbove_def)
  have es: "\<forall>cell\<in>set cells. emptyIn ?B cell" by (simp add: cells_def getEmptyCells_iff)
  have ab0: "absBoard h0 b = ?B" by (rule sameBelow_abs[OF a cl(1)])
  have u: "hMakeMinimaxMove h ai u b =
      (if length cells = 0 then (None, h0)
       else if length cells = 1 then (Some (cells ! 0), h0)
       else if int (length cells) > int (sizeB ?B) * int (sizeB ?B) - 3
         then hMakeMediumMove h0 ai u b
       else hBestLoop h0 ai cells c (Num NegInf) None)"
    unfolding hMakeMinimaxMove_def cells_def
    by (simp add: case_prod_beta Let_def cl(2)[unfolded c_def h0_def] ab0[unfolded h0_def]
        c_def h0_def)
  have v: "makeMinimaxMove ai u ?B =
      (if length cells = 0 then None
       else if length cells = 1 then Some (cells ! 0)
       else if int (length cells) > int (sizeB ?B) * int (sizeB ?B) - 3
         then makeMediumMove ai u ?B
       else fst (bestLoop ai cells ?B (Num NegInf) None))"
    unfolding makeMinimaxMove_def clone_id cells_def by (simp add: Let_def)
  consider (none) "length cells = 0"
    | (one) "length cells \<noteq> 0" "length cells = 1"
    | (medium) "length cells \<noteq> 0" "length cells \<noteq> 1"
        "int (length cells) > int (sizeB ?B) * int (sizeB ?B) - 3"
    | (search) "length cells \<noteq> 0" "length cells \<noteq> 1"
        "\<not> int (length cells) > int (sizeB ?B) * int (sizeB ?B) - 3"
    by blast
  then show ?thesis
  proof cases
    case none
    then show ?thesis unfolding u v using cl(1) by simp
  next
    case one
    then show ?thesis unfolding u v using cl(1) by simp
  next
    case medium
    have a0: "allocated h0 b" by (rule sameBelow_allocated[OF a cl(1) cl(4)])
    have w0: "wf (absBoard h0 b)" using w ab0 by simp
    note m = hMakeMediumMove_frame[OF a0 w0, of ai u]
    have "sameBelow (nextH h) h0 (snd (hMakeMediumMove h0 ai u b))"
      by (rule sameBelow_mono[OF m(2) cl(4)])
    then have "sameBelow (nextH h) h (snd (hMakeMediumMove h0 ai u b))"
      by (rule sameBelow_trans[OF cl(1)])
    then show ?thesis unfolding u v using medium m(1) ab0 by simp
  next
    case search
    note s = hBestLoop_sim[OF w d0 cl(2) es, of ai "Num NegInf" None]
    have "sameBelow (nextH h) h0 (snd (hBestLoop h0 ai cells c (Num NegInf) None))"
      using writesOnly_sameBelow[OF cl(3)] s by blast
    then have "sameBelow (nextH h) h (snd (hBestLoop h0 ai cells c (Num NegInf) None))"
      by (rule sameBelow_trans[OF cl(1)])
    then show ?thesis unfolding u v using search s by simp
  qed
qed

text \<open>
  C9. For every store, every allocated board object whose grid is well formed, every AI
  and every difficulty: after \<open>makeMove(board)\<close> the caller's board has the same
  \<open>size\<close>, \<open>winLength\<close>, grid, history and \<open>currentPlayer\<close> as before; moreover every
  object and array that existed before the call is unchanged, so all writes of the call go
  to memory allocated by \<open>clone()\<close>. The move returned is the one computed by \<open>makeMove\<close>
  on the state of the board.
\<close>

theorem makeMove_leaves_board:
  assumes "allocated h b" and "wf (absBoard h b)"
  shows "absBoard (snd (hMakeMove h ai u b)) b = absBoard h b \<and>
         sameBelow (nextH h) h (snd (hMakeMove h ai u b)) \<and>
         fst (hMakeMove h ai u b) = makeMove ai u (absBoard h b)"
proof -
  have f: "sameBelow (nextH h) h (snd (hMakeMove h ai u b)) \<and>
           fst (hMakeMove h ai u b) = makeMove ai u (absBoard h b)"
  proof (cases "difficulty ai = ''easy''")
    case True
    then show ?thesis by (simp add: hMakeMove_def makeMove_def hMakeRandomMove_def sameBelow_refl)
  next
    case False
    show ?thesis
    proof (cases "difficulty ai = ''medium''")
      case True
      then show ?thesis
        using False hMakeMediumMove_frame[OF assms, of ai u]
        by (simp add: hMakeMove_def makeMove_def)
    next
      case F2: False
      then show ?thesis
        using False hMakeMinimaxMove_frame[OF assms, of ai u]
        by (simp add: hMakeMove_def makeMove_def)
    qed
  qed
  then show ?thesis using sameBelow_abs[OF assms(1)] by blast
qed

theorem makeMove_leaves_board_witness:
  "allocated exampleHeap 5 \<and> wf (absBoard exampleHeap 5) \<and>
   absBoard exampleHeap 5 =
     foldl applyOp (newBoard 3 3) [Place 0 0 ''X'', Place 1 1 ''O'', Place 0 1 ''X'', Place 0 2 ''O''] \<and>
   absBoard (snd (hMakeMove exampleHeap (newAI ''X'' ''hard'') (1 / 2) 5)) 5 = absBoard exampleHeap 5 \<and>
   fst (hMakeMove exampleHeap (newAI ''X'' ''hard'') (1 / 2) 5) = Some \<lparr>row = 2, col = 0\<rparr>"
proof -
  let ?B = "foldl applyOp (newBoard 3 3) [Place 0 0 ''X'', Place 1 1 ''O'', Place 0 1 ''X'', Place 0 2 ''O'']"
  let ?ai = "newAI ''X'' ''hard''"
  have B: "?B = \<lparr>sizeB = 3, winLength = 3,
                 board = [[''X'', ''X'', ''O''], [EMPTY, ''O'', EMPTY], [EMPTY, EMPTY, EMPTY]],
                 moveHistory = [\<lparr>row = 0, col = 0, player = ''X''\<rparr>, \<lparr>row = 1, col = 1, player = ''O''\<rparr>,
                      \<lparr>row = 0, col = 1, player = ''X''\<rparr>, \<lparr>row = 0, col = 2, player = ''O''\<rparr>],
                 currentPlayer = ''O''\<rparr>"
    by code_simp
  have a: "allocated exampleHeap 5" by (simp add: allocated_def exampleHeap_def)
  have ab: "absBoard exampleHeap 5 = ?B" unfolding B by (simp add: absBoard_def exampleHeap_def)
  have w: "wf (absBoard exampleHeap 5)" unfolding ab by code_simp
  have m: "makeMove ?ai (1 / 2) ?B = Some \<lparr>row = 2, col = 0\<rparr>" by code_simp
  note t = makeMove_leaves_board[OF a w, of ?ai "1 / 2"]
  have 1: "absBoard (snd (hMakeMove exampleHeap ?ai (1 / 2) 5)) 5 = absBoard exampleHeap 5"
    using t by blast
  have "fst (hMakeMove exampleHeap ?ai (1 / 2) 5) = makeMove ?ai (1 / 2) (absBoard exampleHeap 5)"
    using t by blast
  then have 2: "fst (hMakeMove exampleHeap ?ai (1 / 2) 5) = Some \<lparr>row = 2, col = 0\<rparr>"
    unfolding ab m .
  show ?thesis using a w ab 1 2 by blast
qed

end
